theory Spec2Isabelle
  imports Main "HOL-Library.Word" "HOL-Library.Multiset"
begin

unbundle bit_operations_syntax

section \<open>The bounded priority queue (heap.c)\<close>

text \<open>
  \<^verbatim>\<open>heap_t\<close> holds \<^verbatim>\<open>unsigned capacity\<close>, the comparator, \<^verbatim>\<open>unsigned count\<close> and the
  array \<^verbatim>\<open>void **entries\<close>. The entries are opaque pointers, modelled by a type
  variable; the array is a list with one element per allocated slot. Values of type
  \<^verbatim>\<open>unsigned\<close> are natural numbers below \<open>2 ^ 32\<close>, and every arithmetic
  operation of the source on them is written with its reduction modulo \<open>2 ^ 32\<close>.
\<close>

record 'a heap_t =
  capacity :: nat
  comparator :: "'a \<Rightarrow> 'a \<Rightarrow> int"
  count :: nat
  entries :: "'a list"

definition UINT_MOD :: nat where
  "UINT_MOD = 2 ^ 32"

definition HEAP_PARENT :: "nat \<Rightarrow> nat" where
  "HEAP_PARENT index = ((index + UINT_MOD - 1) mod UINT_MOD) div 2"

definition HEAP_LEFT :: "nat \<Rightarrow> nat" where
  "HEAP_LEFT index = (2 * index + 1) mod UINT_MOD"

definition HEAP_RIGHT :: "nat \<Rightarrow> nat" where
  "HEAP_RIGHT index = (2 * index + 2) mod UINT_MOD"

text \<open>
  \<^verbatim>\<open>heap_new\<close>: the entry storage comes from \<^verbatim>\<open>xmalloc\<close> and is not initialised; its
  indeterminate contents are the argument \<open>junk\<close>.
\<close>

definition heap_new :: "nat \<Rightarrow> ('a \<Rightarrow> 'a \<Rightarrow> int) \<Rightarrow> 'a \<Rightarrow> 'a heap_t" where
  "heap_new cap cmp junk =
     \<lparr>capacity = cap, comparator = cmp, count = 0, entries = replicate cap junk\<rparr>"

definition heap_compare :: "'a heap_t \<Rightarrow> nat \<Rightarrow> nat \<Rightarrow> int" where
  "heap_compare heap a_idx b_idx =
     comparator heap (entries heap ! a_idx) (entries heap ! b_idx)"

definition heap_property :: "'a heap_t \<Rightarrow> nat \<Rightarrow> nat \<Rightarrow> bool" where
  "heap_property heap parent_idx child_idx \<longleftrightarrow> heap_compare heap parent_idx child_idx > 0"

definition heap_swap :: "'a heap_t \<Rightarrow> nat \<Rightarrow> nat \<Rightarrow> 'a heap_t" where
  "heap_swap heap a b =
     (let tmp = entries heap ! a;
          es1 = (entries heap)[a := entries heap ! b];
          es2 = es1[b := tmp]
      in heap\<lparr>entries := es2\<rparr>)"

text \<open>
  The loop of \<^verbatim>\<open>heap_insert\<close> that bubbles the new entry upwards. The source keeps
  \<^verbatim>\<open>parent_idx = HEAP_PARENT(idx)\<close> in a second variable; here it is recomputed from
  \<open>idx\<close>.
\<close>

function heap_bubble_up :: "'a heap_t \<Rightarrow> nat \<Rightarrow> 'a heap_t" where
  "heap_bubble_up heap idx =
     (if idx \<noteq> 0 \<and> \<not> heap_property heap (HEAP_PARENT idx) idx
      then heap_bubble_up (heap_swap heap idx (HEAP_PARENT idx)) (HEAP_PARENT idx)
      else heap)"
  by pat_completeness auto

lemma HEAP_PARENT_less: "idx \<noteq> 0 \<Longrightarrow> HEAP_PARENT idx < idx"
proof -
  assume nz: "idx \<noteq> 0"
  show ?thesis
  proof (cases "idx < UINT_MOD")
    case True
    then have "(idx + UINT_MOD - 1) mod UINT_MOD = idx - 1"
      using nz by (simp add: mod_if)
    then show ?thesis using nz by (simp add: HEAP_PARENT_def)
  next
    case False
    have "(idx + UINT_MOD - 1) mod UINT_MOD < UINT_MOD"
      by (simp add: UINT_MOD_def)
    then have "(idx + UINT_MOD - 1) mod UINT_MOD div 2 < UINT_MOD" by simp
    then show ?thesis using False by (simp add: HEAP_PARENT_def)
  qed
qed

termination heap_bubble_up
  by (relation "measure (\<lambda>(heap, idx). idx)") (auto simp: HEAP_PARENT_less)

declare heap_bubble_up.simps [simp del]

definition heap_insert :: "'a heap_t \<Rightarrow> 'a \<Rightarrow> 'a heap_t" where
  "heap_insert heap v =
     (if count heap = capacity heap then heap
      else
        let idx = count heap;
            heap1 = heap\<lparr>entries := (entries heap)[idx := v]\<rparr>;
            heap2 = heap1\<lparr>count := (count heap1 + 1) mod UINT_MOD\<rparr>
        in heap_bubble_up heap2 idx)"

text \<open>
  \<^verbatim>\<open>heap_heapify\<close> recurses on a child index computed in \<^verbatim>\<open>unsigned\<close> arithmetic;
  the result is \<open>None\<close> where the recursion does not come to an end.
\<close>

partial_function (option) heap_heapify :: "'a heap_t \<Rightarrow> nat \<Rightarrow> 'a heap_t option" where
  "heap_heapify heap idx =
     (let left_idx = HEAP_LEFT idx;
          right_idx = HEAP_RIGHT idx;
          smallest_idx =
            (if right_idx < count heap
             then (if heap_compare heap left_idx right_idx > 0 then left_idx else right_idx)
             else if left_idx < count heap then left_idx
             else idx)
      in if smallest_idx \<noteq> idx \<and> \<not> heap_property heap idx smallest_idx
         then heap_heapify (heap_swap heap idx smallest_idx) smallest_idx
         else Some heap)"

text \<open>
  \<^verbatim>\<open>heap_extract\<close> returns the extracted pointer, \<^verbatim>\<open>NULL\<close> (here \<open>None\<close>) on an
  empty heap, together with the heap it leaves behind.
\<close>

definition heap_extract :: "'a heap_t \<Rightarrow> ('a option \<times> 'a heap_t) option" where
  "heap_extract heap =
     (if count heap \<noteq> 0
      then
        let extracted = entries heap ! 0;
            heap1 = heap\<lparr>entries := (entries heap)[0 := entries heap ! (count heap - 1)]\<rparr>;
            heap2 = heap1\<lparr>count := count heap1 - 1\<rparr>
        in map_option (\<lambda>h. (Some extracted, h)) (heap_heapify heap2 0)
      else Some (None, heap))"

text \<open>
  A client of the heap: a sequence of \<^verbatim>\<open>heap_insert\<close> and \<^verbatim>\<open>heap_extract\<close> calls, and
  the heaps it leaves after each call.
\<close>

datatype 'a heap_op = Insert 'a | Extract

fun heap_apply :: "'a heap_t \<Rightarrow> 'a heap_op \<Rightarrow> 'a heap_t option" where
  "heap_apply h (Insert v) = Some (heap_insert h v)"
| "heap_apply h Extract = map_option snd (heap_extract h)"

fun heap_trace :: "'a heap_t \<Rightarrow> 'a heap_op list \<Rightarrow> 'a heap_t list option" where
  "heap_trace h [] = Some []"
| "heap_trace h (x # xs) =
     (case heap_apply h x of
        None \<Rightarrow> None
      | Some h' \<Rightarrow> map_option ((#) h') (heap_trace h' xs))"

section \<open>Properties of the heap\<close>

lemma heap_swap_fields [simp]:
  "count (heap_swap h a b) = count h"
  "capacity (heap_swap h a b) = capacity h"
  "comparator (heap_swap h a b) = comparator h"
  "length (entries (heap_swap h a b)) = length (entries h)"
  by (simp_all add: heap_swap_def Let_def)

lemma heap_bubble_up_stop:
  "idx = 0 \<or> heap_property heap (HEAP_PARENT idx) idx \<Longrightarrow> heap_bubble_up heap idx = heap"
  by (subst heap_bubble_up.simps) auto

lemma heap_bubble_up_step:
  "idx \<noteq> 0 \<Longrightarrow> \<not> heap_property heap (HEAP_PARENT idx) idx \<Longrightarrow>
   heap_bubble_up heap idx = heap_bubble_up (heap_swap heap idx (HEAP_PARENT idx)) (HEAP_PARENT idx)"
  by (subst heap_bubble_up.simps) auto

lemma heap_bubble_up_fields_conj:
  "count (heap_bubble_up h i) = count h \<and> capacity (heap_bubble_up h i) = capacity h
   \<and> comparator (heap_bubble_up h i) = comparator h
   \<and> length (entries (heap_bubble_up h i)) = length (entries h)"
proof (induction h i rule: heap_bubble_up.induct)
  case (1 heap idx)
  show ?case
  proof (cases "idx \<noteq> 0 \<and> \<not> heap_property heap (HEAP_PARENT idx) idx")
    case True
    then show ?thesis using 1 by (simp add: heap_bubble_up_step)
  next
    case False
    then show ?thesis by (simp add: heap_bubble_up_stop)
  qed
qed

lemmas heap_bubble_up_fields [simp] =
  heap_bubble_up_fields_conj [THEN conjunct1]
  heap_bubble_up_fields_conj [THEN conjunct2, THEN conjunct1]
  heap_bubble_up_fields_conj [THEN conjunct2, THEN conjunct2, THEN conjunct1]
  heap_bubble_up_fields_conj [THEN conjunct2, THEN conjunct2, THEN conjunct2]

lemma heap_heapify_fields:
  assumes "heap_heapify h i = Some h'"
  shows "count h' = count h \<and> capacity h' = capacity h \<and> comparator h' = comparator h
     \<and> length (entries h') = length (entries h)"
proof (rule heap_heapify.raw_induct [where P = "\<lambda>h i h'. count h' = count h \<and> capacity h' = capacity h \<and> comparator h' = comparator h
     \<and> length (entries h') = length (entries h)", OF _ assms])
  fix f :: "'a heap_t \<Rightarrow> nat \<Rightarrow> 'a heap_t option" and heap idx y
  assume IH: "\<And>a b y. f a b = Some y \<Longrightarrow> count y = count a \<and> capacity y = capacity a \<and> comparator y = comparator a
     \<and> length (entries y) = length (entries a)"
  assume body: "(let left_idx = HEAP_LEFT idx;
          right_idx = HEAP_RIGHT idx;
          smallest_idx =
            (if right_idx < count heap
             then (if heap_compare heap left_idx right_idx > 0 then left_idx else right_idx)
             else if left_idx < count heap then left_idx
             else idx)
      in if smallest_idx \<noteq> idx \<and> \<not> heap_property heap idx smallest_idx
         then f (heap_swap heap idx smallest_idx) smallest_idx
         else Some heap) = Some y"
  show "count y = count heap \<and> capacity y = capacity heap \<and> comparator y = comparator heap
     \<and> length (entries y) = length (entries heap)"
    using body by (auto simp: Let_def split: if_splits dest!: IH)
qed


lemma heap_children_no_wrap:
  assumes "idx < 2 ^ 31 - 1"
  shows "HEAP_LEFT idx = 2 * idx + 1" and "HEAP_RIGHT idx = 2 * idx + 2"
  using assms by (simp_all add: HEAP_LEFT_def HEAP_RIGHT_def UINT_MOD_def)

lemma heap_heapify_terminates:
  "count h < 2 ^ 31 \<Longrightarrow> idx < 2 ^ 31 - 1 \<Longrightarrow> \<exists>h'. heap_heapify h idx = Some h'"
proof (induction "count h - idx" arbitrary: h idx rule: less_induct)
  case less
  note nw = heap_children_no_wrap [OF less.prems(2)]
  define s where "s =
            (if HEAP_RIGHT idx < count h
             then (if heap_compare h (HEAP_LEFT idx) (HEAP_RIGHT idx) > 0 then HEAP_LEFT idx else HEAP_RIGHT idx)
             else if HEAP_LEFT idx < count h then HEAP_LEFT idx
             else idx)"
  have unfold: "heap_heapify h idx =
     (if s \<noteq> idx \<and> \<not> heap_property h idx s then heap_heapify (heap_swap h idx s) s else Some h)"
    by (subst heap_heapify.simps) (simp add: Let_def s_def)
  show ?case
  proof (cases "s \<noteq> idx \<and> \<not> heap_property h idx s")
    case True
    then have s: "idx < s" "s < count h"
      by (auto simp: s_def nw split: if_splits)
    have "\<exists>h'. heap_heapify (heap_swap h idx s) s = Some h'"
    proof (rule less.hyps)
      show "count (heap_swap h idx s) - s < count h - idx" using s by simp
      show "count (heap_swap h idx s) < 2 ^ 31" using less.prems by simp
      show "s < 2 ^ 31 - 1" using s less.prems by simp
    qed
    then show ?thesis using True unfold by simp
  next
    case False
    then show ?thesis using unfold by auto
  qed
qed

lemma heap_insert_count:
  assumes le: "count h \<le> capacity h"
  shows "count (heap_insert h v) \<le> capacity (heap_insert h v)"
proof (cases "count h = capacity h")
  case True
  then show ?thesis by (simp add: heap_insert_def)
next
  case False
  then have lt: "Suc (count h) \<le> capacity h" using le by arith
  have m: "Suc (count h) mod UINT_MOD \<le> Suc (count h)" by (rule mod_less_eq_dividend)
  have c: "count (heap_insert h v) = Suc (count h) mod UINT_MOD"
    using False by (simp add: heap_insert_def Let_def)
  have "capacity (heap_insert h v) = capacity h"
    by (simp add: heap_insert_def Let_def)
  then show ?thesis using lt m c by linarith
qed

lemma heap_extract_count:
  "count h \<le> capacity h \<Longrightarrow> heap_extract h = Some (x, h') \<Longrightarrow> count h' \<le> capacity h'"
  by (auto simp: heap_extract_def Let_def split: if_splits dest!: heap_heapify_fields)

lemma heap_apply_count:
  "count h \<le> capacity h \<Longrightarrow> heap_apply h x = Some h' \<Longrightarrow> count h' \<le> capacity h'"
  by (cases x) (auto simp: heap_insert_count dest: heap_extract_count)

lemma heap_trace_count:
  "count h \<le> capacity h \<Longrightarrow> heap_trace h xs = Some hs \<Longrightarrow> h' \<in> set hs \<Longrightarrow> count h' \<le> capacity h'"
proof (induction xs arbitrary: h hs)
  case Nil
  then show ?case by simp
next
  case (Cons x xs)
  from Cons.prems(2) obtain h1 hs1 where
    a: "heap_apply h x = Some h1" and t: "heap_trace h1 xs = Some hs1" and hs: "hs = h1 # hs1"
    by (auto split: option.splits)
  have c1: "count h1 \<le> capacity h1" using heap_apply_count [OF Cons.prems(1) a] .
  show ?case
  proof (cases "h' = h1")
    case True
    then show ?thesis using c1 by simp
  next
    case False
    then have "h' \<in> set hs1" using Cons.prems(3) hs by simp
    then show ?thesis using Cons.IH [OF c1 t] by simp
  qed
qed

lemma heap_extract_returns:
  "count h \<le> capacity h \<Longrightarrow> capacity h < 2 ^ 31 \<Longrightarrow> \<exists>r. heap_extract h = Some r"
proof -
  assume a: "count h \<le> capacity h" "capacity h < 2 ^ 31"
  show ?thesis
  proof (cases "count h = 0")
    case True
    then show ?thesis by (simp add: heap_extract_def)
  next
    case False
    define h2 where "h2 = h\<lparr>entries := (entries h)[0 := entries h ! (count h - 1)], count := count h - 1\<rparr>"
    have "count h2 < 2 ^ 31" using a by (simp add: h2_def)
    then obtain h' where "heap_heapify h2 0 = Some h'"
      using heap_heapify_terminates [of h2 0] by auto
    then show ?thesis using False by (simp add: heap_extract_def Let_def h2_def)
  qed
qed

lemma heap_apply_returns:
  "count h \<le> capacity h \<Longrightarrow> capacity h < 2 ^ 31 \<Longrightarrow>
   \<exists>h'. heap_apply h x = Some h' \<and> capacity h' = capacity h"
proof (cases x)
  case (Insert v)
  then show ?thesis by (simp add: heap_insert_def Let_def)
next
  case Extract
  assume a: "count h \<le> capacity h" "capacity h < 2 ^ 31"
  then obtain y h' where e: "heap_extract h = Some (y, h')"
    using heap_extract_returns [of h] by fastforce
  then have "capacity h' = capacity h"
    by (auto simp: heap_extract_def Let_def split: if_splits dest!: heap_heapify_fields)
  then show ?thesis using Extract e by simp
qed

lemma heap_trace_returns:
  "count h \<le> capacity h \<Longrightarrow> capacity h < 2 ^ 31 \<Longrightarrow> \<exists>hs. heap_trace h xs = Some hs"
proof (induction xs arbitrary: h)
  case Nil
  then show ?case by simp
next
  case (Cons x xs)
  obtain h1 where a: "heap_apply h x = Some h1" and c: "capacity h1 = capacity h"
    using heap_apply_returns [OF Cons.prems] by blast
  have "count h1 \<le> capacity h1" using heap_apply_count [OF Cons.prems(1) a] .
  then obtain hs where "heap_trace h1 xs = Some hs"
    using Cons.IH [of h1] Cons.prems(2) c by auto
  then show ?case using a by simp
qed

text \<open>
  Claim C8. Starting from a heap with \<open>count \<le> capacity\<close>, every heap reached by a
  sequence of inserts and extracts has \<open>count \<le> capacity\<close>; the sequence runs to its
  end (for capacities below \<open>2 ^ 31\<close>, where the child indices of \<^verbatim>\<open>heap_heapify\<close>
  cannot wrap around); and \<^verbatim>\<open>heap_insert\<close> on a full heap returns the heap as it was:
  same count, same entries, no growth.
\<close>

theorem heap_count_le_capacity:
  assumes "count h \<le> capacity h"
  shows "(\<forall>hs. heap_trace h xs = Some hs \<longrightarrow> (\<forall>h' \<in> set hs. count h' \<le> capacity h'))
       \<and> (capacity h < 2 ^ 31 \<longrightarrow> (\<exists>hs. heap_trace h xs = Some hs))
       \<and> (count h = capacity h \<longrightarrow> heap_insert h v = h)"
proof (intro conjI)
  show "\<forall>hs. heap_trace h xs = Some hs \<longrightarrow> (\<forall>h' \<in> set hs. count h' \<le> capacity h')"
    using heap_trace_count [OF assms] by blast
  show "capacity h < 2 ^ 31 \<longrightarrow> (\<exists>hs. heap_trace h xs = Some hs)"
    using heap_trace_returns [OF assms] by blast
  show "count h = capacity h \<longrightarrow> heap_insert h v = h"
    by (simp add: heap_insert_def)
qed

theorem heap_count_le_capacity_witness:
  "count \<lparr>capacity = 2, comparator = (\<lambda>a b. b - a), count = 2, entries = [1, 5 :: int]\<rparr>
     \<le> capacity \<lparr>capacity = 2, comparator = (\<lambda>a b. b - a), count = 2, entries = [1, 5 :: int]\<rparr>
   \<and> capacity \<lparr>capacity = 2, comparator = (\<lambda>a b. b - a), count = 2, entries = [1, 5 :: int]\<rparr>
       < 2 ^ 31
   \<and> (\<exists>hs. heap_trace \<lparr>capacity = 2, comparator = (\<lambda>a b. b - a), count = 2, entries = [1, 5 :: int]\<rparr>
               [Insert 9, Extract, Insert 3] = Some hs
           \<and> (\<forall>h' \<in> set hs. count h' \<le> capacity h'))
   \<and> heap_insert \<lparr>capacity = 2, comparator = (\<lambda>a b. b - a), count = 2, entries = [1, 5 :: int]\<rparr> 9
       = \<lparr>capacity = 2, comparator = (\<lambda>a b. b - a), count = 2, entries = [1, 5 :: int]\<rparr>"
  using heap_count_le_capacity
    [of "\<lparr>capacity = 2, comparator = (\<lambda>a b. b - a), count = 2, entries = [1, 5 :: int]\<rparr>"
        "[Insert 9, Extract, Insert 3]" 9]
  by auto

section \<open>The Watchman protocol client (watchman.c)\<close>

subsection \<open>Bytes, failures and memory\<close>

text \<open>
  A byte of a buffer is an 8-bit word. The source stops in two ways that are not a
  return: it calls \<^verbatim>\<open>abort()\<close>, or it touches memory that it does not own. The second
  is undefined behaviour in C; the model gives it the value \<open>Fault\<close>, so that no
  result is ever computed from bytes that are not there.
\<close>

type_synonym byte = "8 word"

datatype failure = Abort | Fault

definition load_byte :: "byte list \<Rightarrow> nat \<Rightarrow> failure + byte" where
  "load_byte mem i = (if i < length mem then Inr (mem ! i) else Inl Fault)"

definition load_bytes :: "byte list \<Rightarrow> nat \<Rightarrow> nat \<Rightarrow> failure + byte list" where
  "load_bytes mem i n = (if i + n \<le> length mem then Inr (take n (drop i mem)) else Inl Fault)"

text \<open>
  Multi-byte integers are stored through casts such as \<^verbatim>\<open>*(int16_t *)(encoded + 1)\<close>, in
  the byte order of the machine. The model is little-endian (x86-64, arm64): the
  least significant byte comes first.
\<close>

fun le_bytes :: "nat \<Rightarrow> 'a::len word \<Rightarrow> byte list" where
  "le_bytes 0 v = []"
| "le_bytes (Suc n) v = ucast v # le_bytes n (drop_bit 8 v)"

fun le_word :: "byte list \<Rightarrow> 'a::len word" where
  "le_word [] = 0"
| "le_word (b # bs) = ucast b OR push_bit 8 (le_word bs)"

text \<open>
  A string literal of the source denotes a \<^verbatim>\<open>char\<close> array that ends in a NUL byte;
  \<^verbatim>\<open>sizeof\<close> of the literal is the length of that array. \<^verbatim>\<open>strlen\<close> counts the bytes
  before the first NUL.
\<close>

definition bytes_of :: "string \<Rightarrow> byte list" where
  "bytes_of s = map (\<lambda>c. of_nat (of_char c)) s"

definition c_str :: "string \<Rightarrow> byte list" where
  "c_str s = bytes_of s @ [0]"

definition strlen :: "byte list \<Rightarrow> nat" where
  "strlen s = length (takeWhile (\<lambda>c. c \<noteq> 0) s)"

subsection \<open>Constants\<close>

definition WATCHMAN_DEFAULT_STORAGE :: nat where
  "WATCHMAN_DEFAULT_STORAGE = 4096"

abbreviation WATCHMAN_BINARY_MARKER :: "byte list" where
  "WATCHMAN_BINARY_MARKER \<equiv> [0x00, 0x01]"

abbreviation WATCHMAN_ARRAY_MARKER :: byte where "WATCHMAN_ARRAY_MARKER \<equiv> 0x00"
abbreviation WATCHMAN_OBJECT_MARKER :: byte where "WATCHMAN_OBJECT_MARKER \<equiv> 0x01"
abbreviation WATCHMAN_STRING_MARKER :: byte where "WATCHMAN_STRING_MARKER \<equiv> 0x02"
abbreviation WATCHMAN_INT8_MARKER :: byte where "WATCHMAN_INT8_MARKER \<equiv> 0x03"
abbreviation WATCHMAN_INT16_MARKER :: byte where "WATCHMAN_INT16_MARKER \<equiv> 0x04"
abbreviation WATCHMAN_INT32_MARKER :: byte where "WATCHMAN_INT32_MARKER \<equiv> 0x05"
abbreviation WATCHMAN_INT64_MARKER :: byte where "WATCHMAN_INT64_MARKER \<equiv> 0x06"
abbreviation WATCHMAN_DOUBLE_MARKER :: byte where "WATCHMAN_DOUBLE_MARKER \<equiv> 0x07"
abbreviation WATCHMAN_TRUE :: byte where "WATCHMAN_TRUE \<equiv> 0x08"
abbreviation WATCHMAN_FALSE :: byte where "WATCHMAN_FALSE \<equiv> 0x09"
abbreviation WATCHMAN_NIL :: byte where "WATCHMAN_NIL \<equiv> 0x0a"
abbreviation WATCHMAN_TEMPLATE_MARKER :: byte where "WATCHMAN_TEMPLATE_MARKER \<equiv> 0x0b"
abbreviation WATCHMAN_SKIP_MARKER :: byte where "WATCHMAN_SKIP_MARKER \<equiv> 0x0c"

definition WATCHMAN_HEADER :: "byte list" where
  "WATCHMAN_HEADER = WATCHMAN_BINARY_MARKER @ [0x06] @ [0, 0, 0, 0, 0, 0, 0, 0]"

definition WATCHMAN_SNIFF_BUFFER_SIZE :: nat where
  "WATCHMAN_SNIFF_BUFFER_SIZE = length WATCHMAN_BINARY_MARKER + 1"

subsection \<open>Requests\<close>

text \<open>
  \<^verbatim>\<open>watchman_request_t\<close>: the buffer \<^verbatim>\<open>payload\<close> (all \<^verbatim>\<open>capacity\<close> bytes of it), and the
  number \<^verbatim>\<open>length\<close> of bytes in use.
\<close>

record watchman_request_t =
  req_payload :: "byte list"
  req_capacity :: nat
  req_length :: nat

text \<open>
  \<^verbatim>\<open>watchman_append\<close> copies \<open>n\<close> bytes from \<open>data\<close> to offset \<^verbatim>\<open>length\<close> of the
  buffer. When they do not fit, the source calls \<^verbatim>\<open>xrealloc\<close> and discards the pointer
  it returns; the \<^verbatim>\<open>memcpy\<close> that follows goes through the old \<^verbatim>\<open>w->payload\<close>, which
  the reallocation has released: a fault. Every caller passes at most
  \<open>length data\<close> for \<open>n\<close>.
\<close>

definition watchman_append ::
  "watchman_request_t \<Rightarrow> byte list \<Rightarrow> nat \<Rightarrow> failure + watchman_request_t" where
  "watchman_append w data n =
     (if req_length w + n > req_capacity w
      then Inl Fault
      else Inr (w\<lparr>req_payload :=
                     take (req_length w) (req_payload w) @ take n data
                       @ drop (req_length w + n) (req_payload w),
                   req_length := req_length w + n\<rparr>))"

definition watchman_init :: "failure + watchman_request_t" where
  "watchman_init =
     watchman_append
       \<lparr>req_payload = replicate WATCHMAN_DEFAULT_STORAGE 0,
        req_capacity = WATCHMAN_DEFAULT_STORAGE,
        req_length = 0\<rparr>
       WATCHMAN_HEADER (length WATCHMAN_HEADER)"

text \<open>
  \<^verbatim>\<open>watchman_write_int\<close>: \<^verbatim>\<open>num == (int8_t)num\<close> narrows \<open>num\<close> to 8 bits and widens it
  again with its sign. The array \<open>encoded\<close> holds the marker and then the value in as
  many bytes as its width.
\<close>

definition watchman_write_int ::
  "watchman_request_t \<Rightarrow> 64 word \<Rightarrow> failure + watchman_request_t" where
  "watchman_write_int w num =
     (if num = scast (ucast num :: 8 word)
      then watchman_append w (WATCHMAN_INT8_MARKER # le_bytes 1 (ucast num :: 8 word)) (1 + 1)
      else if num = scast (ucast num :: 16 word)
      then watchman_append w (WATCHMAN_INT16_MARKER # le_bytes 2 (ucast num :: 16 word)) (1 + 2)
      else if num = scast (ucast num :: 32 word)
      then watchman_append w (WATCHMAN_INT32_MARKER # le_bytes 4 (ucast num :: 32 word)) (1 + 4)
      else watchman_append w (WATCHMAN_INT64_MARKER # le_bytes 8 num) (1 + 8))"

text \<open>
  \<^verbatim>\<open>watchman_write_string\<close>: \<open>string\<close> is the memory the pointer refers to, \<open>n\<close> the
  \<^verbatim>\<open>size_t length\<close>, converted to \<^verbatim>\<open>int64_t\<close> for \<^verbatim>\<open>watchman_write_int\<close>.
\<close>

definition watchman_write_string ::
  "watchman_request_t \<Rightarrow> byte list \<Rightarrow> nat \<Rightarrow> failure + watchman_request_t" where
  "watchman_write_string w string n =
     (case watchman_append w [WATCHMAN_STRING_MARKER] 1 of
        Inl e \<Rightarrow> Inl e
      | Inr w1 \<Rightarrow>
          (case watchman_write_int w1 (of_nat n) of
             Inl e \<Rightarrow> Inl e
           | Inr w2 \<Rightarrow> watchman_append w2 string n))"

definition watchman_write_object ::
  "watchman_request_t \<Rightarrow> nat \<Rightarrow> failure + watchman_request_t" where
  "watchman_write_object w sz =
     (case watchman_append w [WATCHMAN_OBJECT_MARKER] 1 of
        Inl e \<Rightarrow> Inl e
      | Inr w1 \<Rightarrow> watchman_write_int w1 (of_nat sz))"

definition watchman_write_array ::
  "watchman_request_t \<Rightarrow> nat \<Rightarrow> failure + watchman_request_t" where
  "watchman_write_array w len =
     (case watchman_append w [WATCHMAN_ARRAY_MARKER] 1 of
        Inl e \<Rightarrow> Inl e
      | Inr w1 \<Rightarrow> watchman_write_int w1 (of_nat len))"

subsection \<open>Responses and decoding\<close>

text \<open>
  \<^verbatim>\<open>watchman_response_t\<close>: \<^verbatim>\<open>payload\<close> is the buffer, \<^verbatim>\<open>ptr\<close> and \<^verbatim>\<open>end\<close> are the two
  cursors, kept as offsets from the start of \<^verbatim>\<open>payload\<close>. Pointer arithmetic on the
  cursors is arithmetic on the offsets.
\<close>

record watchman_response_t =
  rsp_capacity :: nat
  rsp_payload :: "byte list"
  rsp_ptr :: nat
  rsp_end :: nat

text \<open>
  One case of the \<^verbatim>\<open>switch\<close> of \<^verbatim>\<open>watchman_read_int\<close>: the overrun check, the load
  through the cast pointer, and the new position.
\<close>

definition watchman_read_int_case ::
  "watchman_response_t \<Rightarrow> nat \<Rightarrow> nat \<Rightarrow> (byte list \<Rightarrow> 64 word)
     \<Rightarrow> failure + (64 word \<times> watchman_response_t)" where
  "watchman_read_int_case r val_ptr width conv =
     (if val_ptr + width > rsp_end r then Inl Abort
      else
        (case load_bytes (rsp_payload r) val_ptr width of
           Inl e \<Rightarrow> Inl e
         | Inr bs \<Rightarrow> Inr (conv bs, r\<lparr>rsp_ptr := val_ptr + width\<rparr>)))"

definition watchman_read_int ::
  "watchman_response_t \<Rightarrow> failure + (64 word \<times> watchman_response_t)" where
  "watchman_read_int r =
     (let val_ptr = rsp_ptr r + 1 in
      if val_ptr \<ge> rsp_end r then Inl Abort
      else
        (case load_byte (rsp_payload r) (rsp_ptr r) of
           Inl e \<Rightarrow> Inl e
         | Inr marker \<Rightarrow>
             if marker = WATCHMAN_INT8_MARKER
             then watchman_read_int_case r val_ptr 1 (\<lambda>bs. scast (le_word bs :: 8 word))
             else if marker = WATCHMAN_INT16_MARKER
             then watchman_read_int_case r val_ptr 2 (\<lambda>bs. scast (le_word bs :: 16 word))
             else if marker = WATCHMAN_INT32_MARKER
             then watchman_read_int_case r val_ptr 4 (\<lambda>bs. scast (le_word bs :: 32 word))
             else if marker = WATCHMAN_INT64_MARKER
             then watchman_read_int_case r val_ptr 8 (\<lambda>bs. le_word bs)
             else Inl Abort))"

text \<open>
  Modelled from the spec: \<^verbatim>\<open>str_new_copy\<close> (declared in \<^verbatim>\<open>str.h\<close>, defined outside the
  sources at hand). Reading a string takes "exactly that many bytes": the call
  \<^verbatim>\<open>str_new_copy(src, n)\<close> returns a copy of the \<open>n\<close> bytes at \<open>src\<close>. Copying bytes
  that the buffer does not hold is a fault.
\<close>

definition str_new_copy :: "byte list \<Rightarrow> nat \<Rightarrow> nat \<Rightarrow> failure + byte list" where
  "str_new_copy mem src n = load_bytes mem src n"

text \<open>
  \<^verbatim>\<open>watchman_read_string\<close>. The length is an \<^verbatim>\<open>int64_t\<close>: the bounds check adds it to the
  cursor as a signed number, and \<^verbatim>\<open>str_new_copy\<close> receives it converted to \<^verbatim>\<open>size_t\<close>.
  The function has no check of its own for a negative length; what happens then is
  up to \<^verbatim>\<open>str_new_copy\<close>, which is therefore the argument \<open>copy\<close> here.
  \<open>watchman_read_string\<close> is the function with the \<^verbatim>\<open>str_new_copy\<close> modelled above.
\<close>

definition watchman_read_string_with ::
  "(byte list \<Rightarrow> nat \<Rightarrow> nat \<Rightarrow> failure + byte list)
     \<Rightarrow> watchman_response_t \<Rightarrow> failure + (byte list \<times> watchman_response_t)" where
  "watchman_read_string_with copy r =
     (if rsp_ptr r \<ge> rsp_end r then Inl Abort
      else
        (case load_byte (rsp_payload r) (rsp_ptr r) of
           Inl e \<Rightarrow> Inl e
         | Inr marker \<Rightarrow>
             if marker \<noteq> WATCHMAN_STRING_MARKER then Inl Abort
             else
               let r1 = r\<lparr>rsp_ptr := rsp_ptr r + 1\<rparr> in
               if rsp_ptr r1 \<ge> rsp_end r1 then Inl Abort
               else
                 (case watchman_read_int r1 of
                    Inl e \<Rightarrow> Inl e
                  | Inr (len, r2) \<Rightarrow>
                      if len = 0 then Inr ([], r2)
                      else if int (rsp_ptr r2) + sint len > int (rsp_end r2) then Inl Abort
                      else
                        (case copy (rsp_payload r2) (rsp_ptr r2) (unat len) of
                           Inl e \<Rightarrow> Inl e
                         | Inr s \<Rightarrow>
                             Inr (s, r2\<lparr>rsp_ptr := nat (int (rsp_ptr r2) + sint len)\<rparr>)))))"

abbreviation watchman_read_string ::
  "watchman_response_t \<Rightarrow> failure + (byte list \<times> watchman_response_t)" where
  "watchman_read_string \<equiv> watchman_read_string_with str_new_copy"

text \<open>
  \<^verbatim>\<open>sizeof(typeof(WATCHMAN_DOUBLE_MARKER))\<close>: the marker is the integer constant \<^verbatim>\<open>0x07\<close>,
  whose type is \<^verbatim>\<open>int\<close>, four bytes on the platforms that the Makefile builds for.
\<close>

definition SIZEOF_DOUBLE_MARKER :: nat where
  "SIZEOF_DOUBLE_MARKER = 4"

text \<open>
  \<^verbatim>\<open>watchman_read_double\<close>: the bounds check and the cursor count
  \<^verbatim>\<open>sizeof(typeof(WATCHMAN_DOUBLE_MARKER))\<close> bytes for the marker, and the value is read
  behind them. The value is returned as the eight bytes that represent it.
\<close>

definition watchman_read_double ::
  "watchman_response_t \<Rightarrow> failure + (64 word \<times> watchman_response_t)" where
  "watchman_read_double r =
     (if rsp_ptr r + SIZEOF_DOUBLE_MARKER + 8 > rsp_end r then Inl Abort
      else
        (case load_byte (rsp_payload r) (rsp_ptr r) of
           Inl e \<Rightarrow> Inl e
         | Inr marker \<Rightarrow>
             if marker = WATCHMAN_DOUBLE_MARKER
             then
               let r1 = r\<lparr>rsp_ptr := rsp_ptr r + SIZEOF_DOUBLE_MARKER\<rparr> in
               (case load_bytes (rsp_payload r1) (rsp_ptr r1) 8 of
                  Inl e \<Rightarrow> Inl e
                | Inr bs \<Rightarrow> Inr (le_word bs, r1\<lparr>rsp_ptr := rsp_ptr r1 + 8\<rparr>))
             else Inl Abort))"

text \<open>
  \<^verbatim>\<open>watchman_read_array\<close> and \<^verbatim>\<open>watchman_read_object\<close> differ in the marker only; the
  count is returned as \<^verbatim>\<open>uint64_t\<close> once it is known not to be negative.
\<close>

definition watchman_read_header ::
  "byte \<Rightarrow> watchman_response_t \<Rightarrow> failure + (nat \<times> watchman_response_t)" where
  "watchman_read_header expected r =
     (if rsp_ptr r \<ge> rsp_end r then Inl Abort
      else
        (case load_byte (rsp_payload r) (rsp_ptr r) of
           Inl e \<Rightarrow> Inl e
         | Inr marker \<Rightarrow>
             if marker = expected
             then
               let r1 = r\<lparr>rsp_ptr := rsp_ptr r + 1\<rparr> in
               if rsp_ptr r1 + 2 > rsp_end r1 then Inl Abort
               else
                 (case watchman_read_int r1 of
                    Inl e \<Rightarrow> Inl e
                  | Inr (cnt, r2) \<Rightarrow>
                      if sint cnt < 0 then Inl Abort else Inr (unat cnt, r2))
             else Inl Abort))"

definition watchman_read_array ::
  "watchman_response_t \<Rightarrow> failure + (nat \<times> watchman_response_t)" where
  "watchman_read_array r = watchman_read_header WATCHMAN_ARRAY_MARKER r"

definition watchman_read_object ::
  "watchman_response_t \<Rightarrow> failure + (nat \<times> watchman_response_t)" where
  "watchman_read_object r = watchman_read_header WATCHMAN_OBJECT_MARKER r"

text \<open>
  A \<^verbatim>\<open>for\<close> loop that runs \<open>step\<close> a given number of times on the response, and stops
  at the first failure. \<open>None\<close> is the result of a step that did not come to an end.
\<close>

fun repeat_skip ::
  "nat \<Rightarrow> (watchman_response_t \<Rightarrow> (failure + watchman_response_t) option)
     \<Rightarrow> watchman_response_t \<Rightarrow> (failure + watchman_response_t) option" where
  "repeat_skip 0 step r = Some (Inr r)"
| "repeat_skip (Suc n) step r =
     (case step r of
        None \<Rightarrow> None
      | Some (Inl e) \<Rightarrow> Some (Inl e)
      | Some (Inr r') \<Rightarrow> repeat_skip n step r')"

text \<open>
  \<^verbatim>\<open>watchman_skip_value\<close> calls itself for the elements of arrays, objects and
  templates. The argument \<open>depth\<close> bounds the depth of these nested calls: the result
  is \<open>None\<close> when the bound is used up. The argument \<open>copy\<close> is the \<^verbatim>\<open>str_new_copy\<close> that
  \<^verbatim>\<open>watchman_read_string\<close> calls; \<open>watchman_skip_value\<close> is the function with the
  \<^verbatim>\<open>str_new_copy\<close> modelled above.
\<close>

fun watchman_skip_value_with ::
  "(byte list \<Rightarrow> nat \<Rightarrow> nat \<Rightarrow> failure + byte list)
     \<Rightarrow> nat \<Rightarrow> watchman_response_t \<Rightarrow> (failure + watchman_response_t) option" where
  "watchman_skip_value_with copy 0 r = None"
| "watchman_skip_value_with copy (Suc depth) r =
     (if rsp_ptr r \<ge> rsp_end r then Some (Inl Abort)
      else
        (case load_byte (rsp_payload r) (rsp_ptr r) of
           Inl e \<Rightarrow> Some (Inl e)
         | Inr marker \<Rightarrow>
             if marker = WATCHMAN_ARRAY_MARKER then
               (case watchman_read_array r of
                  Inl e \<Rightarrow> Some (Inl e)
                | Inr (cnt, r1) \<Rightarrow> repeat_skip cnt (watchman_skip_value_with copy depth) r1)
             else if marker = WATCHMAN_OBJECT_MARKER then
               (case watchman_read_object r of
                  Inl e \<Rightarrow> Some (Inl e)
                | Inr (cnt, r1) \<Rightarrow> repeat_skip cnt (watchman_skip_value_with copy depth) r1)
             else if marker = WATCHMAN_STRING_MARKER then
               (case watchman_read_string_with copy r of
                  Inl e \<Rightarrow> Some (Inl e)
                | Inr (s, r1) \<Rightarrow> Some (Inr r1))
             else if marker = WATCHMAN_INT8_MARKER \<or> marker = WATCHMAN_INT16_MARKER
                     \<or> marker = WATCHMAN_INT32_MARKER \<or> marker = WATCHMAN_INT64_MARKER then
               (case watchman_read_int r of
                  Inl e \<Rightarrow> Some (Inl e)
                | Inr (v, r1) \<Rightarrow> Some (Inr r1))
             else if marker = WATCHMAN_DOUBLE_MARKER then
               (case watchman_read_double r of
                  Inl e \<Rightarrow> Some (Inl e)
                | Inr (v, r1) \<Rightarrow> Some (Inr r1))
             else if marker = WATCHMAN_TRUE \<or> marker = WATCHMAN_FALSE
                     \<or> marker = WATCHMAN_NIL \<or> marker = WATCHMAN_SKIP_MARKER then
               Some (Inr (r\<lparr>rsp_ptr := rsp_ptr r + 1\<rparr>))
             else if marker = WATCHMAN_TEMPLATE_MARKER then
               (case watchman_read_array (r\<lparr>rsp_ptr := rsp_ptr r + 1\<rparr>) of
                  Inl e \<Rightarrow> Some (Inl e)
                | Inr (key_count, r1) \<Rightarrow>
                    (case repeat_skip key_count (watchman_skip_value_with copy depth) r1 of
                       None \<Rightarrow> None
                     | Some (Inl e) \<Rightarrow> Some (Inl e)
                     | Some (Inr r2) \<Rightarrow>
                         (case watchman_read_array r2 of
                            Inl e \<Rightarrow> Some (Inl e)
                          | Inr (object_count, r3) \<Rightarrow>
                              repeat_skip object_count
                                (repeat_skip key_count (watchman_skip_value_with copy depth)) r3)))
             else Some (Inl Abort)))"

abbreviation watchman_skip_value ::
  "nat \<Rightarrow> watchman_response_t \<Rightarrow> (failure + watchman_response_t) option" where
  "watchman_skip_value \<equiv> watchman_skip_value_with str_new_copy"


subsection \<open>What a request puts on the wire\<close>

definition req_wf :: "watchman_request_t \<Rightarrow> bool" where
  "req_wf w \<longleftrightarrow> req_length w \<le> req_capacity w \<and> length (req_payload w) = req_capacity w"

definition wire :: "watchman_request_t \<Rightarrow> byte list" where
  "wire w = take (req_length w) (req_payload w)"

text \<open>
  The narrowest of the four widths, in bits, whose two's-complement range holds the
  value, and the marker that announces a width.
\<close>

definition narrowest_width :: "64 word \<Rightarrow> nat" where
  "narrowest_width num =
     (if - (2 ^ 7) \<le> sint num \<and> sint num < 2 ^ 7 then 8
      else if - (2 ^ 15) \<le> sint num \<and> sint num < 2 ^ 15 then 16
      else if - (2 ^ 31) \<le> sint num \<and> sint num < 2 ^ 31 then 32
      else 64)"

definition width_marker :: "nat \<Rightarrow> byte" where
  "width_marker bits =
     (if bits = 8 then WATCHMAN_INT8_MARKER
      else if bits = 16 then WATCHMAN_INT16_MARKER
      else if bits = 32 then WATCHMAN_INT32_MARKER
      else WATCHMAN_INT64_MARKER)"

section \<open>Properties of the codec\<close>

lemma length_le_bytes [simp]: "length (le_bytes n v) = n"
  by (induction n arbitrary: v) auto

lemma le_bytes_numeral [simp]:
  "le_bytes (numeral k) v = ucast v # le_bytes (pred_numeral k) (drop_bit 8 v)"
  by (simp add: numeral_eq_Suc)

lemma split_low_byte:
  "(ucast (ucast v :: byte) :: 'a::len word) OR push_bit 8 (take_bit m (drop_bit 8 v))
     = take_bit (8 + m) v"
proof (rule bit_word_eqI)
  fix k assume k: "k < LENGTH('a)"
  have a: "bit (ucast (ucast v :: byte) :: 'a word) k \<longleftrightarrow> k < 8 \<and> bit v k"
    using k by (simp add: bit_ucast_iff)
  have b: "bit (push_bit 8 (take_bit m (drop_bit 8 v))) k \<longleftrightarrow> 8 \<le> k \<and> k - 8 < m \<and> bit v k"
    using k by (auto simp add: bit_push_bit_iff bit_take_bit_iff bit_drop_bit_eq)
  have c: "bit (take_bit (8 + m) v) k \<longleftrightarrow> k < 8 + m \<and> bit v k"
    by (simp add: bit_take_bit_iff)
  show "bit (ucast (ucast v :: byte) OR push_bit 8 (take_bit m (drop_bit 8 v)) :: 'a word) k
          \<longleftrightarrow> bit (take_bit (8 + m) v) k"
    unfolding bit_or_iff a b c by arith
qed

lemma le_word_le_bytes:
  "(le_word (le_bytes n v) :: 'a word) = take_bit (8 * n) (v :: 'a::len word)"
proof (induction n arbitrary: v)
  case 0
  then show ?case by simp
next
  case (Suc n)
  have "(le_word (le_bytes (Suc n) v) :: 'a word)
          = ucast (ucast v :: byte) OR push_bit 8 (take_bit (8 * n) (drop_bit 8 v))"
    by (simp add: Suc)
  also have "\<dots> = take_bit (8 + 8 * n) v" by (rule split_low_byte)
  finally show ?case by simp
qed

lemma le_word_le_bytes_full:
  "LENGTH('a) \<le> 8 * n \<Longrightarrow> (le_word (le_bytes n v) :: 'a word) = (v :: 'a::len word)"
  by (simp add: le_word_le_bytes take_bit_word_eq_self)

lemma sint_ucast_narrow:
  fixes x :: "64 word"
  assumes len: "LENGTH('b::len) \<le> 64"
  shows "sint (ucast x :: 'b word) = signed_take_bit (LENGTH('b) - 1) (sint x)"
proof -
  have "sint (ucast x :: 'b word) = signed_take_bit (LENGTH('b) - 1) (uint (ucast x :: 'b word))"
    by (simp add: sint_uint)
  also have "uint (ucast x :: 'b word) = take_bit LENGTH('b) (uint x)"
    by (simp add: unsigned_ucast_eq)
  also have "signed_take_bit (LENGTH('b) - 1) (take_bit LENGTH('b) (uint x))
               = signed_take_bit (LENGTH('b) - 1) (uint x)"
    by (simp add: signed_take_bit_take_bit)
  also have "\<dots> = signed_take_bit (LENGTH('b) - 1) (signed_take_bit 63 (uint x))"
  proof -
    have "min (LENGTH('b) - 1) 63 = LENGTH('b) - 1" using len by simp
    then show ?thesis by (simp only: signed_take_bit_signed_take_bit)
  qed
  also have "signed_take_bit 63 (uint x) = sint x"
    by (simp add: sint_uint)
  finally show ?thesis .
qed

lemma scast_ucast_fits:
  fixes x :: "64 word"
  assumes len: "LENGTH('b::len) \<le> 64"
  shows "x = (scast (ucast x :: 'b word) :: 64 word)
           \<longleftrightarrow> - (2 ^ (LENGTH('b) - 1)) \<le> sint x \<and> sint x < 2 ^ (LENGTH('b) - 1)"
proof -
  have up: "is_up (scast :: 'b word \<Rightarrow> 64 word)" using len by (simp add: is_up)
  have e: "sint (scast (ucast x :: 'b word) :: 64 word) = signed_take_bit (LENGTH('b) - 1) (sint x)"
    using sint_up_scast [OF up] sint_ucast_narrow [OF len] by simp
  show ?thesis
  proof
    assume "x = (scast (ucast x :: 'b word) :: 64 word)"
    then have "signed_take_bit (LENGTH('b) - 1) (sint x) = sint x" using e by simp
    then show "- (2 ^ (LENGTH('b) - 1)) \<le> sint x \<and> sint x < 2 ^ (LENGTH('b) - 1)"
      by (simp add: signed_take_bit_int_eq_self_iff)
  next
    assume "- (2 ^ (LENGTH('b) - 1)) \<le> sint x \<and> sint x < 2 ^ (LENGTH('b) - 1)"
    then have "signed_take_bit (LENGTH('b) - 1) (sint x) = sint x"
      by (simp add: signed_take_bit_int_eq_self_iff)
    then have "sint (scast (ucast x :: 'b word) :: 64 word) = sint x" using e by simp
    then have "(scast (ucast x :: 'b word) :: 64 word) = x" by (rule signed_word_eqI)
    then show "x = (scast (ucast x :: 'b word) :: 64 word)" by simp
  qed
qed

lemma watchman_append_ok:
  assumes "req_wf w" and "req_length w + n \<le> req_capacity w" and "n \<le> length data"
  shows "\<exists>w'. watchman_append w data n = Inr w' \<and> req_wf w'
           \<and> wire w' = wire w @ take n data
           \<and> req_capacity w' = req_capacity w
           \<and> req_length w' = req_length w + n"
  using assms by (simp add: watchman_append_def req_wf_def wire_def)

text \<open>What \<^verbatim>\<open>watchman_write_int\<close> hands to \<^verbatim>\<open>watchman_append\<close>.\<close>

definition int_bytes :: "64 word \<Rightarrow> byte list" where
  "int_bytes num =
     (if num = scast (ucast num :: 8 word)
      then WATCHMAN_INT8_MARKER # le_bytes 1 (ucast num :: 8 word)
      else if num = scast (ucast num :: 16 word)
      then WATCHMAN_INT16_MARKER # le_bytes 2 (ucast num :: 16 word)
      else if num = scast (ucast num :: 32 word)
      then WATCHMAN_INT32_MARKER # le_bytes 4 (ucast num :: 32 word)
      else WATCHMAN_INT64_MARKER # le_bytes 8 num)"

lemma watchman_write_int_append:
  "watchman_write_int w num = watchman_append w (int_bytes num) (length (int_bytes num))"
  by (simp add: watchman_write_int_def int_bytes_def eval_nat_numeral del: le_bytes_numeral)

lemma int_bytes_shape:
  "int_bytes num = width_marker (narrowest_width num) # tl (int_bytes num)
   \<and> length (int_bytes num) = 1 + narrowest_width num div 8"
proof -
  have f8: "num = scast (ucast num :: 8 word) \<longleftrightarrow> - (2 ^ 7) \<le> sint num \<and> sint num < 2 ^ 7"
    using scast_ucast_fits [where 'b = 8, of num] by simp
  have f16: "num = scast (ucast num :: 16 word) \<longleftrightarrow> - (2 ^ 15) \<le> sint num \<and> sint num < 2 ^ 15"
    using scast_ucast_fits [where 'b = 16, of num] by simp
  have f32: "num = scast (ucast num :: 32 word) \<longleftrightarrow> - (2 ^ 31) \<le> sint num \<and> sint num < 2 ^ 31"
    using scast_ucast_fits [where 'b = 32, of num] by simp
  show ?thesis
    using f8 f16 f32
    by (auto simp: int_bytes_def narrowest_width_def width_marker_def simp del: le_bytes_numeral)
qed

lemma length_int_bytes_le: "length (int_bytes num) \<le> 9"
  by (simp add: int_bytes_def del: le_bytes_numeral)

lemma watchman_read_int_int_bytes:
  assumes pl: "rsp_payload r = pre @ int_bytes num @ post"
    and ptr: "rsp_ptr r = length pre"
    and en: "length pre + length (int_bytes num) \<le> rsp_end r"
  shows "watchman_read_int r = Inr (num, r\<lparr>rsp_ptr := length pre + length (int_bytes num)\<rparr>)"
proof -
  consider (a) "num = scast (ucast num :: 8 word)"
    | (b) "num \<noteq> scast (ucast num :: 8 word)" "num = scast (ucast num :: 16 word)"
    | (c) "num \<noteq> scast (ucast num :: 8 word)" "num \<noteq> scast (ucast num :: 16 word)"
          "num = scast (ucast num :: 32 word)"
    | (d) "num \<noteq> scast (ucast num :: 8 word)" "num \<noteq> scast (ucast num :: 16 word)"
          "num \<noteq> scast (ucast num :: 32 word)"
    by blast
  then show ?thesis
  proof cases
    case a
    then have ib: "int_bytes num = WATCHMAN_INT8_MARKER # le_bytes 1 (ucast num :: 8 word)"
      by (simp add: int_bytes_def)
    have rt: "(le_word (le_bytes 1 (ucast num :: 8 word)) :: 8 word) = ucast num"
      by (rule le_word_le_bytes_full) simp
    show ?thesis
      using en a rt unfolding watchman_read_int_def watchman_read_int_case_def
      by (simp add: pl ptr ib load_byte_def load_bytes_def Let_def nth_append)
  next
    case b
    then have ib: "int_bytes num = WATCHMAN_INT16_MARKER # le_bytes 2 (ucast num :: 16 word)"
      by (simp add: int_bytes_def)
    have rt: "(le_word (le_bytes 2 (ucast num :: 16 word)) :: 16 word) = ucast num"
      by (rule le_word_le_bytes_full) simp
    have ld: "take 2 (drop (Suc (length pre)) (pre @ WATCHMAN_INT16_MARKER # le_bytes 2 (ucast num :: 16 word) @ post))
                = le_bytes 2 (ucast num :: 16 word)"
      by simp
    show ?thesis
      using en b rt ld unfolding watchman_read_int_def watchman_read_int_case_def
      by (simp add: pl ptr ib load_byte_def load_bytes_def Let_def nth_append del: le_bytes_numeral)
  next
    case c
    then have ib: "int_bytes num = WATCHMAN_INT32_MARKER # le_bytes 4 (ucast num :: 32 word)"
      by (simp add: int_bytes_def)
    have rt: "(le_word (le_bytes 4 (ucast num :: 32 word)) :: 32 word) = ucast num"
      by (rule le_word_le_bytes_full) simp
    have ld: "take 4 (drop (Suc (length pre)) (pre @ WATCHMAN_INT32_MARKER # le_bytes 4 (ucast num :: 32 word) @ post))
                = le_bytes 4 (ucast num :: 32 word)"
      by simp
    show ?thesis
      using en c rt ld unfolding watchman_read_int_def watchman_read_int_case_def
      by (simp add: pl ptr ib load_byte_def load_bytes_def Let_def nth_append del: le_bytes_numeral)
  next
    case d
    then have ib: "int_bytes num = WATCHMAN_INT64_MARKER # le_bytes 8 num"
      by (simp add: int_bytes_def)
    have rt: "(le_word (le_bytes 8 num) :: 64 word) = num"
      by (rule le_word_le_bytes_full) simp
    have ld: "take 8 (drop (Suc (length pre)) (pre @ WATCHMAN_INT64_MARKER # le_bytes 8 num @ post))
                = le_bytes 8 num"
      by simp
    show ?thesis
      using en d rt ld unfolding watchman_read_int_def watchman_read_int_case_def
      by (simp add: pl ptr ib load_byte_def load_bytes_def Let_def nth_append del: le_bytes_numeral)
  qed
qed


lemma length_wire: "req_wf w \<Longrightarrow> length (wire w) = req_length w"
  by (simp add: req_wf_def wire_def)

lemma watchman_write_int_ok:
  assumes "req_wf w" and "req_length w + length (int_bytes num) \<le> req_capacity w"
  shows "\<exists>w'. watchman_write_int w num = Inr w' \<and> req_wf w'
           \<and> wire w' = wire w @ int_bytes num
           \<and> req_capacity w' = req_capacity w
           \<and> req_length w' = req_length w + length (int_bytes num)"
  using watchman_append_ok [OF assms(1) assms(2), of "int_bytes num"]
  by (simp add: watchman_write_int_append)

lemma int_bytes_examples:
  "int_bytes 100 = [WATCHMAN_INT8_MARKER, 0x64]"
  "int_bytes 1000 = [WATCHMAN_INT16_MARKER, 0xE8, 0x03]"
  "int_bytes 100000 = [WATCHMAN_INT32_MARKER, 0xA0, 0x86, 0x01, 0x00]"
  by (simp_all add: int_bytes_def)

text \<open>
  Claim C4. Whatever the 64-bit value, \<^verbatim>\<open>watchman_write_int\<close> followed by
  \<^verbatim>\<open>watchman_read_int\<close> on the bytes written gives the value back and leaves the cursor
  behind them; the bytes written are one marker byte and the value in the narrowest of
  the widths 8, 16, 32 and 64 bits whose two's-complement range holds it, and the
  marker is the one of that width.
\<close>

theorem watchman_int_round_trip:
  assumes "req_wf w" and "req_length w + 9 \<le> req_capacity w"
  shows "\<exists>w'. watchman_write_int w num = Inr w'
           \<and> req_length w' = req_length w + 1 + narrowest_width num div 8
           \<and> wire w' ! req_length w = width_marker (narrowest_width num)
           \<and> watchman_read_int
                 \<lparr>rsp_capacity = c, rsp_payload = wire w',
                  rsp_ptr = req_length w, rsp_end = req_length w'\<rparr>
               = Inr (num, \<lparr>rsp_capacity = c, rsp_payload = wire w',
                            rsp_ptr = req_length w', rsp_end = req_length w'\<rparr>)"
proof -
  have fit: "req_length w + length (int_bytes num) \<le> req_capacity w"
    using assms(2) length_int_bytes_le [of num] by linarith
  obtain w' where wr: "watchman_write_int w num = Inr w'"
    and wi: "wire w' = wire w @ int_bytes num"
    and ln: "req_length w' = req_length w + length (int_bytes num)"
    using watchman_write_int_ok [OF assms(1) fit] by blast
  have lw: "length (wire w) = req_length w" using assms(1) by (rule length_wire)
  have shape: "int_bytes num = width_marker (narrowest_width num) # tl (int_bytes num)"
    and len: "length (int_bytes num) = 1 + narrowest_width num div 8"
    using int_bytes_shape [of num] by simp_all
  have mk: "wire w' ! req_length w = width_marker (narrowest_width num)"
  proof -
    have "wire w' ! req_length w = int_bytes num ! 0"
      using lw by (simp add: wi nth_append)
    also have "\<dots> = width_marker (narrowest_width num)"
      by (subst shape) simp
    finally show ?thesis .
  qed
  have rd: "watchman_read_int
              \<lparr>rsp_capacity = c, rsp_payload = wire w',
               rsp_ptr = req_length w, rsp_end = req_length w'\<rparr>
            = Inr (num, \<lparr>rsp_capacity = c, rsp_payload = wire w',
                         rsp_ptr = req_length w', rsp_end = req_length w'\<rparr>)"
    using watchman_read_int_int_bytes
      [of "\<lparr>rsp_capacity = c, rsp_payload = wire w',
            rsp_ptr = req_length w, rsp_end = req_length w'\<rparr>" "wire w" num "[]"]
    by (simp add: wi lw ln)
  show ?thesis using wr ln len mk rd by auto
qed

theorem watchman_int_round_trip_witness:
  "req_wf \<lparr>req_payload = replicate 4096 0, req_capacity = 4096, req_length = 0\<rparr>
   \<and> req_length \<lparr>req_payload = replicate 4096 0, req_capacity = 4096, req_length = 0\<rparr> + 9
        \<le> req_capacity \<lparr>req_payload = replicate 4096 0, req_capacity = 4096, req_length = 0\<rparr>
   \<and> (\<exists>w'. watchman_write_int
                \<lparr>req_payload = replicate 4096 0, req_capacity = 4096, req_length = 0\<rparr> 1000
              = Inr w'
           \<and> req_length w' = 3
           \<and> watchman_read_int
                 \<lparr>rsp_capacity = 4096, rsp_payload = wire w', rsp_ptr = 0, rsp_end = req_length w'\<rparr>
               = Inr (1000, \<lparr>rsp_capacity = 4096, rsp_payload = wire w',
                             rsp_ptr = req_length w', rsp_end = req_length w'\<rparr>))"
  using watchman_int_round_trip
    [of "\<lparr>req_payload = replicate 4096 0, req_capacity = 4096, req_length = 0\<rparr>" 1000 4096]
  by (auto simp: req_wf_def narrowest_width_def)

definition advanced :: "watchman_response_t \<Rightarrow> watchman_response_t \<Rightarrow> bool" where
  "advanced r r' \<longleftrightarrow>
     rsp_ptr r < rsp_ptr r' \<and> rsp_ptr r' \<le> rsp_end r \<and> rsp_end r' = rsp_end r
     \<and> rsp_payload r' = rsp_payload r \<and> rsp_capacity r' = rsp_capacity r"

definition follows :: "watchman_response_t \<Rightarrow> watchman_response_t \<Rightarrow> bool" where
  "follows r r' \<longleftrightarrow>
     rsp_ptr r \<le> rsp_ptr r' \<and> rsp_ptr r' \<le> rsp_end r \<and> rsp_end r' = rsp_end r
     \<and> rsp_payload r' = rsp_payload r \<and> rsp_capacity r' = rsp_capacity r"

lemma advanced_follows: "advanced r r' \<Longrightarrow> follows r r'"
  by (simp add: advanced_def follows_def)

lemma watchman_read_int_advanced:
  "watchman_read_int r = Inr (v, r') \<Longrightarrow> advanced r r'"
  by (auto simp: watchman_read_int_def watchman_read_int_case_def Let_def advanced_def
           split: if_splits sum.splits)

lemma watchman_read_double_advanced:
  "watchman_read_double r = Inr (v, r') \<Longrightarrow> advanced r r'"
  by (auto simp: watchman_read_double_def SIZEOF_DOUBLE_MARKER_def Let_def advanced_def
           split: if_splits sum.splits)

lemma watchman_read_header_advanced:
  "watchman_read_header m r = Inr (n, r') \<Longrightarrow> advanced r r'"
proof -
  assume a: "watchman_read_header m r = Inr (n, r')"
  then obtain c where "watchman_read_int (r\<lparr>rsp_ptr := rsp_ptr r + 1\<rparr>) = Inr (c, r')"
    by (auto simp: watchman_read_header_def Let_def split: if_splits sum.splits)
  then have "advanced (r\<lparr>rsp_ptr := rsp_ptr r + 1\<rparr>) r'"
    by (rule watchman_read_int_advanced)
  then show ?thesis by (simp add: advanced_def)
qed



lemma sint_of_small_unat:
  fixes len :: "64 word"
  assumes "unat len < 2 ^ 63"
  shows "sint len = int (unat len)"
proof -
  have "int (unat len) < int (2 ^ 63)" using assms by (simp only: of_nat_less_iff)
  then have u: "uint len < 2 ^ 63" by simp
  have "sint len = signed_take_bit 63 (uint len)" by (simp add: sint_uint)
  also have "\<dots> = uint len"
  proof (rule signed_take_bit_int_eq_self)
    have "- (2 ^ 63) \<le> (0::int)" by simp
    also have "0 \<le> uint len" by simp
    finally show "- (2 ^ 63) \<le> uint len" .
    show "uint len < 2 ^ 63" using u .
  qed
  finally show ?thesis by simp
qed

text \<open>
  What the proofs below need of \<^verbatim>\<open>str_new_copy\<close>: it returns only when the bytes to copy
  lie within the buffer.
\<close>

definition copy_within :: "(byte list \<Rightarrow> nat \<Rightarrow> nat \<Rightarrow> failure + byte list) \<Rightarrow> bool" where
  "copy_within copy \<longleftrightarrow> (\<forall>mem src n s. copy mem src n = Inr s \<longrightarrow> src + n \<le> length mem)"

lemma str_new_copy_within: "copy_within str_new_copy"
  by (auto simp: copy_within_def str_new_copy_def load_bytes_def split: if_splits)

lemma watchman_read_string_advanced:
  assumes cw: "copy_within copy"
    and len: "length (rsp_payload r) < 2 ^ 63"
    and rd: "watchman_read_string_with copy r = Inr (s, r')"
  shows "advanced r r'"
proof -
  define r1 where "r1 = r\<lparr>rsp_ptr := rsp_ptr r + 1\<rparr>"
  from rd obtain n r2 where ri: "watchman_read_int r1 = Inr (n, r2)"
    and rest: "(if n = 0 then Inr ([], r2)
                else if int (rsp_ptr r2) + sint n > int (rsp_end r2) then Inl Abort
                else (case copy (rsp_payload r2) (rsp_ptr r2) (unat n) of
                        Inl e \<Rightarrow> Inl e
                      | Inr s \<Rightarrow> Inr (s, r2\<lparr>rsp_ptr := nat (int (rsp_ptr r2) + sint n)\<rparr>)))
               = Inr (s, r')"
    by (auto simp: watchman_read_string_with_def Let_def r1_def split: if_splits sum.splits)
  have a12: "advanced r1 r2" using ri by (rule watchman_read_int_advanced)
  then have a2: "advanced r r2" by (simp add: advanced_def r1_def)
  show ?thesis
  proof (cases "n = 0")
    case True
    then show ?thesis using rest a2 by simp
  next
    case False
    from rest False have chk: "int (rsp_ptr r2) + sint n \<le> int (rsp_end r2)"
      by (auto split: if_splits)
    from rest False chk obtain bs where
      cp: "copy (rsp_payload r2) (rsp_ptr r2) (unat n) = Inr bs"
      and r': "r' = r2\<lparr>rsp_ptr := nat (int (rsp_ptr r2) + sint n)\<rparr>"
      by (auto split: if_splits sum.splits)
    from cp have "rsp_ptr r2 + unat n \<le> length (rsp_payload r2)"
      using cw unfolding copy_within_def by blast
    moreover have "rsp_payload r2 = rsp_payload r" using a2 by (simp add: advanced_def)
    ultimately have "unat n < 2 ^ 63" using len by simp
    then have sn: "sint n = int (unat n)" by (rule sint_of_small_unat)
    have pos: "0 < unat n" using False by (simp add: unat_gt_0)
    have np: "nat (int (rsp_ptr r2) + sint n) = rsp_ptr r2 + unat n"
      by (simp only: sn nat_int_add)
    have le: "rsp_ptr r2 + unat n \<le> rsp_end r2"
      using chk unfolding sn by linarith
    show ?thesis using a2 pos le unfolding r' np advanced_def by simp
  qed
qed

definition cursor_ok :: "watchman_response_t \<Rightarrow> bool" where
  "cursor_ok r \<longleftrightarrow> rsp_ptr r \<le> rsp_end r \<and> length (rsp_payload r) < 2 ^ 63"

lemma follows_cursor_ok: "follows r r' \<Longrightarrow> cursor_ok r \<Longrightarrow> cursor_ok r'"
  by (simp add: follows_def cursor_ok_def)

lemma follows_trans: "follows r r1 \<Longrightarrow> follows r1 r2 \<Longrightarrow> follows r r2"
  by (simp add: follows_def)

lemma advanced_then_follows: "advanced r r1 \<Longrightarrow> follows r1 r2 \<Longrightarrow> advanced r r2"
  by (simp add: follows_def advanced_def)

lemma repeat_skip_follows:
  assumes step: "\<And>q q'. step q = Some (Inr q') \<Longrightarrow> cursor_ok q \<Longrightarrow> follows q q'"
  shows "repeat_skip n step r = Some (Inr r') \<Longrightarrow> cursor_ok r \<Longrightarrow> follows r r'"
proof (induction n arbitrary: r)
  case 0
  then show ?case by (simp add: follows_def cursor_ok_def)
next
  case (Suc n)
  from Suc.prems(1) obtain r1 where s1: "step r = Some (Inr r1)"
    and rest: "repeat_skip n step r1 = Some (Inr r')"
    by (auto split: option.splits sum.splits)
  have f1: "follows r r1" using step [OF s1 Suc.prems(2)] .
  then have "cursor_ok r1" using Suc.prems(2) by (rule follows_cursor_ok)
  then have "follows r1 r'" using Suc.IH [OF rest] by simp
  then show ?case using f1 follows_trans by blast
qed


lemma skip_end:
  "rsp_end r \<le> rsp_ptr r \<Longrightarrow> watchman_skip_value_with copy (Suc depth) r = Some (Inl Abort)"
  by simp

lemma skip_fault:
  "rsp_ptr r < rsp_end r \<Longrightarrow> load_byte (rsp_payload r) (rsp_ptr r) = Inl e
     \<Longrightarrow> watchman_skip_value_with copy (Suc depth) r = Some (Inl e)"
  by simp

lemma skip_array:
  "rsp_ptr r < rsp_end r \<Longrightarrow> load_byte (rsp_payload r) (rsp_ptr r) = Inr WATCHMAN_ARRAY_MARKER
     \<Longrightarrow> watchman_skip_value_with copy (Suc depth) r =
          (case watchman_read_array r of
             Inl e \<Rightarrow> Some (Inl e)
           | Inr (cnt, r1) \<Rightarrow> repeat_skip cnt (watchman_skip_value_with copy depth) r1)"
  by simp

lemma skip_object:
  "rsp_ptr r < rsp_end r \<Longrightarrow> load_byte (rsp_payload r) (rsp_ptr r) = Inr WATCHMAN_OBJECT_MARKER
     \<Longrightarrow> watchman_skip_value_with copy (Suc depth) r =
          (case watchman_read_object r of
             Inl e \<Rightarrow> Some (Inl e)
           | Inr (cnt, r1) \<Rightarrow> repeat_skip cnt (watchman_skip_value_with copy depth) r1)"
  by simp

lemma skip_string:
  "rsp_ptr r < rsp_end r \<Longrightarrow> load_byte (rsp_payload r) (rsp_ptr r) = Inr WATCHMAN_STRING_MARKER
     \<Longrightarrow> watchman_skip_value_with copy (Suc depth) r =
          (case watchman_read_string_with copy r of
             Inl e \<Rightarrow> Some (Inl e)
           | Inr (s, r1) \<Rightarrow> Some (Inr r1))"
  by simp

lemma skip_int:
  "rsp_ptr r < rsp_end r \<Longrightarrow> load_byte (rsp_payload r) (rsp_ptr r) = Inr marker
     \<Longrightarrow> marker = WATCHMAN_INT8_MARKER \<or> marker = WATCHMAN_INT16_MARKER
           \<or> marker = WATCHMAN_INT32_MARKER \<or> marker = WATCHMAN_INT64_MARKER
     \<Longrightarrow> watchman_skip_value_with copy (Suc depth) r =
          (case watchman_read_int r of
             Inl e \<Rightarrow> Some (Inl e)
           | Inr (v, r1) \<Rightarrow> Some (Inr r1))"
  by auto

lemma skip_double:
  "rsp_ptr r < rsp_end r \<Longrightarrow> load_byte (rsp_payload r) (rsp_ptr r) = Inr WATCHMAN_DOUBLE_MARKER
     \<Longrightarrow> watchman_skip_value_with copy (Suc depth) r =
          (case watchman_read_double r of
             Inl e \<Rightarrow> Some (Inl e)
           | Inr (v, r1) \<Rightarrow> Some (Inr r1))"
  by simp

lemma skip_one_byte:
  "rsp_ptr r < rsp_end r \<Longrightarrow> load_byte (rsp_payload r) (rsp_ptr r) = Inr marker
     \<Longrightarrow> marker = WATCHMAN_TRUE \<or> marker = WATCHMAN_FALSE
           \<or> marker = WATCHMAN_NIL \<or> marker = WATCHMAN_SKIP_MARKER
     \<Longrightarrow> watchman_skip_value_with copy (Suc depth) r = Some (Inr (r\<lparr>rsp_ptr := rsp_ptr r + 1\<rparr>))"
  by auto

lemma skip_template:
  "rsp_ptr r < rsp_end r \<Longrightarrow> load_byte (rsp_payload r) (rsp_ptr r) = Inr WATCHMAN_TEMPLATE_MARKER
     \<Longrightarrow> watchman_skip_value_with copy (Suc depth) r =
          (case watchman_read_array (r\<lparr>rsp_ptr := rsp_ptr r + 1\<rparr>) of
             Inl e \<Rightarrow> Some (Inl e)
           | Inr (key_count, r1) \<Rightarrow>
               (case repeat_skip key_count (watchman_skip_value_with copy depth) r1 of
                  None \<Rightarrow> None
                | Some (Inl e) \<Rightarrow> Some (Inl e)
                | Some (Inr r2) \<Rightarrow>
                    (case watchman_read_array r2 of
                       Inl e \<Rightarrow> Some (Inl e)
                     | Inr (object_count, r3) \<Rightarrow>
                         repeat_skip object_count
                           (repeat_skip key_count (watchman_skip_value_with copy depth)) r3)))"
  by simp

lemma skip_unsupported:
  "rsp_ptr r < rsp_end r \<Longrightarrow> load_byte (rsp_payload r) (rsp_ptr r) = Inr marker
     \<Longrightarrow> marker \<notin> {0, 1, 2, 3, 4, 5, 6, 7, 8, 9, 0xa, 0xb, 0xc}
     \<Longrightarrow> watchman_skip_value_with copy (Suc depth) r = Some (Inl Abort)"
  by simp

lemma marker_cases:
  fixes marker :: byte
  obtains (arr) "marker = WATCHMAN_ARRAY_MARKER" | (obj) "marker = WATCHMAN_OBJECT_MARKER"
    | (str) "marker = WATCHMAN_STRING_MARKER"
    | (int) "marker = WATCHMAN_INT8_MARKER \<or> marker = WATCHMAN_INT16_MARKER
              \<or> marker = WATCHMAN_INT32_MARKER \<or> marker = WATCHMAN_INT64_MARKER"
    | (dbl) "marker = WATCHMAN_DOUBLE_MARKER"
    | (one) "marker = WATCHMAN_TRUE \<or> marker = WATCHMAN_FALSE
              \<or> marker = WATCHMAN_NIL \<or> marker = WATCHMAN_SKIP_MARKER"
    | (tpl) "marker = WATCHMAN_TEMPLATE_MARKER"
    | (other) "marker \<notin> {0, 1, 2, 3, 4, 5, 6, 7, 8, 9, 0xa, 0xb, 0xc}"
  by auto

lemma watchman_skip_value_advanced:
  assumes cw: "copy_within copy"
  shows "length (rsp_payload r) < 2 ^ 63 \<Longrightarrow> watchman_skip_value_with copy depth r = Some (Inr r')
     \<Longrightarrow> advanced r r'"
proof (induction depth arbitrary: r r')
  case 0
  then show ?case by simp
next
  case (Suc depth)
  have step: "\<And>q q'. watchman_skip_value_with copy depth q = Some (Inr q') \<Longrightarrow> cursor_ok q \<Longrightarrow> follows q q'"
    using Suc.IH advanced_follows unfolding cursor_ok_def by blast
  have rep: "follows q q'"
    if "repeat_skip n (watchman_skip_value_with copy depth) q = Some (Inr q')" and "cursor_ok q" for n q q'
  proof (rule repeat_skip_follows [where step = "watchman_skip_value_with copy depth"])
    show "\<And>a b. watchman_skip_value_with copy depth a = Some (Inr b) \<Longrightarrow> cursor_ok a \<Longrightarrow> follows a b"
      by (rule step)
    show "repeat_skip n (watchman_skip_value_with copy depth) q = Some (Inr q')" by fact
    show "cursor_ok q" by fact
  qed
  have rep2: "follows q q'"
    if "repeat_skip n (repeat_skip k (watchman_skip_value_with copy depth)) q = Some (Inr q')"
      and "cursor_ok q" for k n q q'
  proof (rule repeat_skip_follows [where step = "repeat_skip k (watchman_skip_value_with copy depth)"])
    show "\<And>a b. repeat_skip k (watchman_skip_value_with copy depth) a = Some (Inr b) \<Longrightarrow> cursor_ok a
            \<Longrightarrow> follows a b"
      by (rule rep)
    show "repeat_skip n (repeat_skip k (watchman_skip_value_with copy depth)) q = Some (Inr q')" by fact
    show "cursor_ok q" by fact
  qed
  note len = Suc.prems(1)
  note res = Suc.prems(2)
  have ok_after: "\<And>q. advanced r q \<Longrightarrow> cursor_ok q"
    using len by (simp add: advanced_def cursor_ok_def)
  from res have lt: "rsp_ptr r < rsp_end r"
    by (auto split: if_splits)
  from res lt obtain marker where mk: "load_byte (rsp_payload r) (rsp_ptr r) = Inr marker"
    by (auto split: sum.splits)
  show ?case
  proof (cases marker rule: marker_cases)
    case arr
    from res obtain n r1 where h: "watchman_read_array r = Inr (n, r1)"
      and l: "repeat_skip n (watchman_skip_value_with copy depth) r1 = Some (Inr r')"
      unfolding skip_array [OF lt mk [unfolded arr]] by (auto split: sum.splits)
    have a: "advanced r r1" using h unfolding watchman_read_array_def
      by (rule watchman_read_header_advanced)
    show ?thesis using advanced_then_follows [OF a rep [OF l ok_after [OF a]]] .
  next
    case obj
    from res obtain n r1 where h: "watchman_read_object r = Inr (n, r1)"
      and l: "repeat_skip n (watchman_skip_value_with copy depth) r1 = Some (Inr r')"
      unfolding skip_object [OF lt mk [unfolded obj]] by (auto split: sum.splits)
    have a: "advanced r r1" using h unfolding watchman_read_object_def
      by (rule watchman_read_header_advanced)
    show ?thesis using advanced_then_follows [OF a rep [OF l ok_after [OF a]]] .
  next
    case str
    from res obtain s where "watchman_read_string_with copy r = Inr (s, r')"
      unfolding skip_string [OF lt mk [unfolded str]] by (auto split: sum.splits)
    with cw len show ?thesis by (rule watchman_read_string_advanced)
  next
    case int
    from res obtain v where "watchman_read_int r = Inr (v, r')"
      unfolding skip_int [OF lt mk int] by (auto split: sum.splits)
    then show ?thesis by (rule watchman_read_int_advanced)
  next
    case dbl
    from res obtain v where "watchman_read_double r = Inr (v, r')"
      unfolding skip_double [OF lt mk [unfolded dbl]] by (auto split: sum.splits)
    then show ?thesis by (rule watchman_read_double_advanced)
  next
    case one
    from res have "r' = r\<lparr>rsp_ptr := rsp_ptr r + 1\<rparr>"
      unfolding skip_one_byte [OF lt mk one] by simp
    then show ?thesis using lt by (simp add: advanced_def)
  next
    case tpl
    define r0 where "r0 = r\<lparr>rsp_ptr := rsp_ptr r + 1\<rparr>"
    from res obtain k r1 r2 n r3 where
      h1: "watchman_read_array r0 = Inr (k, r1)"
      and l1: "repeat_skip k (watchman_skip_value_with copy depth) r1 = Some (Inr r2)"
      and h2: "watchman_read_array r2 = Inr (n, r3)"
      and l2: "repeat_skip n (repeat_skip k (watchman_skip_value_with copy depth)) r3 = Some (Inr r')"
      unfolding skip_template [OF lt mk [unfolded tpl]] r0_def
      by (auto split: sum.splits option.splits)
    have "advanced r0 r1" using h1 unfolding watchman_read_array_def
      by (rule watchman_read_header_advanced)
    then have a1: "advanced r r1" by (simp add: advanced_def r0_def)
    have a2: "advanced r r2"
      using advanced_then_follows [OF a1 rep [OF l1 ok_after [OF a1]]] .
    have "advanced r2 r3" using h2 unfolding watchman_read_array_def
      by (rule watchman_read_header_advanced)
    then have a3: "advanced r r3" using a2 by (simp add: advanced_def)
    show ?thesis using advanced_then_follows [OF a3 rep2 [OF l2 ok_after [OF a3]]] .
  next
    case other
    from res show ?thesis unfolding skip_unsupported [OF lt mk other] by simp
  qed
qed


lemma repeat_skip_returns:
  assumes ret: "\<And>q. Inv q \<Longrightarrow> step q \<noteq> None"
    and pres: "\<And>q q'. Inv q \<Longrightarrow> step q = Some (Inr q') \<Longrightarrow> Inv q'"
  shows "Inv r \<Longrightarrow> repeat_skip n step r \<noteq> None"
proof (induction n arbitrary: r)
  case 0
  then show ?case by simp
next
  case (Suc n)
  from ret [OF Suc.prems] obtain x where sx: "step r = Some x" by auto
  show ?case
  proof (cases x)
    case (Inl e)
    then show ?thesis using sx by simp
  next
    case (Inr q')
    then have "Inv q'" using pres [OF Suc.prems] sx by simp
    then show ?thesis using Suc.IH sx Inr by simp
  qed
qed

definition skip_ready :: "nat \<Rightarrow> watchman_response_t \<Rightarrow> bool" where
  "skip_ready depth r \<longleftrightarrow> cursor_ok r \<and> rsp_end r - rsp_ptr r < depth"

lemma follows_skip_ready: "follows r r' \<Longrightarrow> skip_ready depth r \<Longrightarrow> skip_ready depth r'"
  by (auto simp: follows_def skip_ready_def cursor_ok_def)

lemma advanced_skip_ready:
  "advanced r r' \<Longrightarrow> length (rsp_payload r) < 2 ^ 63 \<Longrightarrow> rsp_end r - rsp_ptr r < Suc depth
     \<Longrightarrow> skip_ready depth r'"
  by (auto simp: advanced_def skip_ready_def cursor_ok_def)

lemma watchman_skip_value_returns:
  assumes cw: "copy_within copy"
  shows "length (rsp_payload r) < 2 ^ 63 \<Longrightarrow> rsp_end r - rsp_ptr r < depth
     \<Longrightarrow> watchman_skip_value_with copy depth r \<noteq> None"
proof (induction depth arbitrary: r)
  case 0
  then show ?case by simp
next
  case (Suc depth)
  note len = Suc.prems(1)
  have ret: "watchman_skip_value_with copy depth q \<noteq> None" if "skip_ready depth q" for q
    using that Suc.IH [of q] by (simp add: skip_ready_def cursor_ok_def)
  have pres: "skip_ready depth q'"
    if "skip_ready depth q" and "watchman_skip_value_with copy depth q = Some (Inr q')" for q q'
  proof -
    have "length (rsp_payload q) < 2 ^ 63" using that(1) by (simp add: skip_ready_def cursor_ok_def)
    then have "advanced q q'" using that(2) by (rule watchman_skip_value_advanced [OF cw])
    then show ?thesis using that(1) advanced_follows follows_skip_ready by blast
  qed
  have rep: "repeat_skip n (watchman_skip_value_with copy depth) q \<noteq> None" if "skip_ready depth q" for n q
    using ret pres that by (rule repeat_skip_returns [where Inv = "skip_ready depth"])
  have rep_follows: "follows q q'"
    if "repeat_skip n (watchman_skip_value_with copy depth) q = Some (Inr q')" and "cursor_ok q" for n q q'
  proof (rule repeat_skip_follows [where step = "watchman_skip_value_with copy depth"])
    show "\<And>a b. watchman_skip_value_with copy depth a = Some (Inr b) \<Longrightarrow> cursor_ok a \<Longrightarrow> follows a b"
      using watchman_skip_value_advanced [OF cw] advanced_follows unfolding cursor_ok_def by blast
    show "repeat_skip n (watchman_skip_value_with copy depth) q = Some (Inr q')" by fact
    show "cursor_ok q" by fact
  qed
  have rep_pres: "skip_ready depth q'"
    if "skip_ready depth q" and "repeat_skip n (watchman_skip_value_with copy depth) q = Some (Inr q')"
    for n q q'
  proof -
    have "cursor_ok q" using that(1) by (simp add: skip_ready_def)
    then have "follows q q'" using that(2) rep_follows by blast
    then show ?thesis using that(1) by (rule follows_skip_ready)
  qed
  have rep2: "repeat_skip n (repeat_skip k (watchman_skip_value_with copy depth)) q \<noteq> None"
    if "skip_ready depth q" for n k q
    using rep rep_pres that
    by (rule repeat_skip_returns [where Inv = "skip_ready depth"])
  show ?case
  proof (cases "rsp_ptr r < rsp_end r")
    case False
    then show ?thesis by simp
  next
    case lt: True
    show ?thesis
    proof (cases "load_byte (rsp_payload r) (rsp_ptr r)")
      case (Inl e)
      then show ?thesis using lt by simp
    next
      case mk: (Inr marker)
      show ?thesis
      proof (cases marker rule: marker_cases)
        case arr
        show ?thesis
        proof (cases "watchman_read_array r")
          case (Inl e)
          then show ?thesis unfolding skip_array [OF lt mk [unfolded arr]] by simp
        next
          case (Inr p)
          obtain n r1 where p: "p = (n, r1)" by (cases p)
          have "advanced r r1" using Inr p unfolding watchman_read_array_def
            by (auto intro: watchman_read_header_advanced)
          then have "skip_ready depth r1" using len Suc.prems(2) by (rule advanced_skip_ready)
          then show ?thesis unfolding skip_array [OF lt mk [unfolded arr]] using Inr p rep by simp
        qed
      next
        case obj
        show ?thesis
        proof (cases "watchman_read_object r")
          case (Inl e)
          then show ?thesis unfolding skip_object [OF lt mk [unfolded obj]] by simp
        next
          case (Inr p)
          obtain n r1 where p: "p = (n, r1)" by (cases p)
          have "advanced r r1" using Inr p unfolding watchman_read_object_def
            by (auto intro: watchman_read_header_advanced)
          then have "skip_ready depth r1" using len Suc.prems(2) by (rule advanced_skip_ready)
          then show ?thesis unfolding skip_object [OF lt mk [unfolded obj]] using Inr p rep by simp
        qed
      next
        case str
        show ?thesis unfolding skip_string [OF lt mk [unfolded str]]
          by (simp split: sum.splits prod.splits)
      next
        case int
        show ?thesis unfolding skip_int [OF lt mk int]
          by (simp split: sum.splits prod.splits)
      next
        case dbl
        show ?thesis unfolding skip_double [OF lt mk [unfolded dbl]]
          by (simp split: sum.splits prod.splits)
      next
        case one
        show ?thesis unfolding skip_one_byte [OF lt mk one] by simp
      next
        case tpl
        define r0 where "r0 = r\<lparr>rsp_ptr := rsp_ptr r + 1\<rparr>"
        show ?thesis
        proof (cases "watchman_read_array r0")
          case (Inl e)
          then show ?thesis unfolding skip_template [OF lt mk [unfolded tpl]] r0_def by simp
        next
          case (Inr p)
          obtain k r1 where p: "p = (k, r1)" by (cases p)
          have "advanced r0 r1" using Inr p unfolding watchman_read_array_def
            by (auto intro: watchman_read_header_advanced)
          then have a1: "advanced r r1" by (simp add: advanced_def r0_def)
          then have s1: "skip_ready depth r1" using len Suc.prems(2) by (rule advanced_skip_ready)
          obtain x where l1: "repeat_skip k (watchman_skip_value_with copy depth) r1 = Some x"
            using rep [OF s1, of k] by auto
          show ?thesis
          proof (cases x)
            case (Inl e)
            then show ?thesis
              unfolding skip_template [OF lt mk [unfolded tpl]] using Inr p l1
              by (simp add: r0_def)
          next
            case r2: (Inr r2)
            have s2: "skip_ready depth r2" using rep_pres [OF s1] l1 r2 by simp
            show ?thesis
            proof (cases "watchman_read_array r2")
              case (Inl e)
              then show ?thesis
                unfolding skip_template [OF lt mk [unfolded tpl]] using Inr p l1 r2
                by (simp add: r0_def)
            next
              case h2: (Inr p2)
              obtain n r3 where p2: "p2 = (n, r3)" by (cases p2)
              have "advanced r2 r3" using h2 p2 unfolding watchman_read_array_def
                by (auto intro: watchman_read_header_advanced)
              then have "skip_ready depth r3"
                using s2 advanced_follows follows_skip_ready by blast
              then have "repeat_skip n (repeat_skip k (watchman_skip_value_with copy depth)) r3 \<noteq> None"
                by (rule rep2)
              then show ?thesis
                unfolding skip_template [OF lt mk [unfolded tpl]] using Inr p l1 r2 h2 p2
                by (simp add: r0_def)
            qed
          qed
        qed
      next
        case other
        show ?thesis unfolding skip_unsupported [OF lt mk other] by simp
      qed
    qed
  qed
qed


lemma repeat_skip_mono:
  assumes st: "\<And>q y. step q = Some y \<Longrightarrow> step' q = Some y"
  shows "repeat_skip n step r = Some x \<Longrightarrow> repeat_skip n step' r = Some x"
proof (induction n arbitrary: r)
  case 0
  then show ?case by simp
next
  case (Suc n)
  from Suc.prems obtain y where sy: "step r = Some y"
    by (auto split: option.splits)
  then have sy': "step' r = Some y" by (rule st)
  show ?case
  proof (cases y)
    case (Inl e)
    then show ?thesis using Suc.prems sy sy' by auto
  next
    case (Inr q)
    then have "repeat_skip n step q = Some x" using Suc.prems sy by simp
    then have "repeat_skip n step' q = Some x" by (rule Suc.IH)
    then show ?thesis using sy' Inr by simp
  qed
qed

lemma watchman_skip_value_deeper:
  "watchman_skip_value_with copy depth r = Some x \<Longrightarrow> watchman_skip_value_with copy (Suc depth) r = Some x"
proof (induction depth arbitrary: r x)
  case 0
  then show ?case by simp
next
  case (Suc depth)
  note res = Suc.prems
  have m1: "repeat_skip n (watchman_skip_value_with copy (Suc depth)) q = Some y"
    if "repeat_skip n (watchman_skip_value_with copy depth) q = Some y" for n q y
    using Suc.IH that by (rule repeat_skip_mono)
  have m2: "repeat_skip n (repeat_skip k (watchman_skip_value_with copy (Suc depth))) q = Some y"
    if "repeat_skip n (repeat_skip k (watchman_skip_value_with copy depth)) q = Some y" for n k q y
    using m1 that by (rule repeat_skip_mono)
  show ?case
  proof (cases "rsp_ptr r < rsp_end r")
    case False
    then show ?thesis using res by simp
  next
    case lt: True
    show ?thesis
    proof (cases "load_byte (rsp_payload r) (rsp_ptr r)")
      case (Inl e)
      then show ?thesis using lt res by simp
    next
      case mk: (Inr marker)
      show ?thesis
      proof (cases marker rule: marker_cases)
        case arr
        note u = skip_array [OF lt mk [unfolded arr]]
        show ?thesis using res m1 unfolding u [where depth = depth] u [where depth = "Suc depth"]
          by (auto split: sum.splits)
      next
        case obj
        note u = skip_object [OF lt mk [unfolded obj]]
        show ?thesis using res m1 unfolding u [where depth = depth] u [where depth = "Suc depth"]
          by (auto split: sum.splits)
      next
        case str
        note u = skip_string [OF lt mk [unfolded str]]
        show ?thesis using res unfolding u [where depth = depth] u [where depth = "Suc depth"] .
      next
        case int
        note u = skip_int [OF lt mk int]
        show ?thesis using res unfolding u [where depth = depth] u [where depth = "Suc depth"] .
      next
        case dbl
        note u = skip_double [OF lt mk [unfolded dbl]]
        show ?thesis using res unfolding u [where depth = depth] u [where depth = "Suc depth"] .
      next
        case one
        note u = skip_one_byte [OF lt mk one]
        show ?thesis using res unfolding u [where depth = depth] u [where depth = "Suc depth"] .
      next
        case tpl
        note u = skip_template [OF lt mk [unfolded tpl]]
        show ?thesis
        proof (cases "watchman_read_array (r\<lparr>rsp_ptr := rsp_ptr r + 1\<rparr>)")
          case (Inl e)
          then show ?thesis using res unfolding u [where depth = depth] u [where depth = "Suc depth"] by simp
        next
          case (Inr p)
          obtain k r1 where p: "p = (k, r1)" by (cases p)
          from res obtain y where l1: "repeat_skip k (watchman_skip_value_with copy depth) r1 = Some y"
            unfolding u [where depth = depth] using Inr p by (auto split: option.splits)
          note l1' = m1 [OF l1]
          show ?thesis
          proof (cases y)
            case (Inl e)
            then show ?thesis using res l1 l1' Inr p unfolding u [where depth = depth] u [where depth = "Suc depth"]
              by auto
          next
            case r2: (Inr r2)
            show ?thesis
            proof (cases "watchman_read_array r2")
              case (Inl e)
              then show ?thesis using res l1 l1' Inr p r2
                unfolding u [where depth = depth] u [where depth = "Suc depth"] by simp
            next
              case h2: (Inr p2)
              obtain n r3 where p2: "p2 = (n, r3)" by (cases p2)
              have "repeat_skip n (repeat_skip k (watchman_skip_value_with copy depth)) r3 = Some x"
                using res l1 Inr p r2 h2 p2 unfolding u [where depth = depth] by simp
              then have "repeat_skip n (repeat_skip k (watchman_skip_value_with copy (Suc depth))) r3 = Some x"
                by (rule m2)
              then show ?thesis using l1' Inr p r2 h2 p2 unfolding u [where depth = "Suc depth"] by simp
            qed
          qed
        qed
      next
        case other
        note u = skip_unsupported [OF lt mk other]
        show ?thesis using res unfolding u [where depth = depth] u [where depth = "Suc depth"] .
      qed
    qed
  qed
qed

lemma watchman_skip_value_depth_mono:
  "watchman_skip_value_with copy depth r = Some x \<Longrightarrow> depth \<le> depth'
     \<Longrightarrow> watchman_skip_value_with copy depth' r = Some x"
proof (induction depth' arbitrary: depth)
  case 0
  then show ?case by simp
next
  case (Suc depth')
  show ?case
  proof (cases "depth = Suc depth'")
    case True
    then show ?thesis using Suc.prems by simp
  next
    case False
    then have "depth \<le> depth'" using Suc.prems(2) by simp
    then have "watchman_skip_value_with copy depth' r = Some x" using Suc.IH Suc.prems(1) by blast
    then show ?thesis by (rule watchman_skip_value_deeper)
  qed
qed

text \<open>The marker of a double counts four bytes: nine bytes are not enough, twelve are.\<close>

lemma watchman_read_double_example:
  "watchman_read_double
     \<lparr>rsp_capacity = 9, rsp_payload = [0x07, 0, 0, 0, 0, 0, 0, 0, 0], rsp_ptr = 0, rsp_end = 9\<rparr>
   = Inl Abort
   \<and> watchman_read_double
     \<lparr>rsp_capacity = 12, rsp_payload = [0x07, 0, 0, 0, 5, 0, 0, 0, 0, 0, 0, 0],
      rsp_ptr = 0, rsp_end = 12\<rparr>
   = Inr (5, \<lparr>rsp_capacity = 12, rsp_payload = [0x07, 0, 0, 0, 5, 0, 0, 0, 0, 0, 0, 0],
              rsp_ptr = 12, rsp_end = 12\<rparr>)"
  by (simp add: watchman_read_double_def SIZEOF_DOUBLE_MARKER_def load_byte_def load_bytes_def)

text \<open>
  A string whose declared length is \<open>- 3\<close>: the bounds check of \<^verbatim>\<open>watchman_read_string\<close>
  lets it through, and \<^verbatim>\<open>str_new_copy\<close> is asked for \<open>2 ^ 64 - 3\<close> bytes. With the
  \<^verbatim>\<open>str_new_copy\<close> modelled above the call is a fault. Were it to return, the cursor
  would be back where the string begins: this is why \<open>copy_within\<close> is assumed below.
\<close>

lemma watchman_read_string_negative_length:
  "watchman_read_string
     \<lparr>rsp_capacity = 3, rsp_payload = [0x02, 0x03, 0xFD], rsp_ptr = 0, rsp_end = 3\<rparr>
   = Inl Fault
   \<and> watchman_read_string_with (\<lambda>mem src n. Inr [])
     \<lparr>rsp_capacity = 3, rsp_payload = [0x02, 0x03, 0xFD], rsp_ptr = 0, rsp_end = 3\<rparr>
   = Inr ([], \<lparr>rsp_capacity = 3, rsp_payload = [0x02, 0x03, 0xFD], rsp_ptr = 0, rsp_end = 3\<rparr>)"
  by (simp add: watchman_read_string_with_def watchman_read_int_def watchman_read_int_case_def
        str_new_copy_def load_byte_def load_bytes_def)

text \<open>
  Claim C10. On a response buffer of realistic size (less than \<open>2 ^ 63\<close> bytes), and
  with a \<^verbatim>\<open>str_new_copy\<close> that returns only when the bytes to copy lie within the buffer
  (\<open>copy_within\<close>; \<^verbatim>\<open>watchman_read_string\<close> itself lets a negative length through its
  bounds check), every decode operation that returns has moved the read cursor
  forward by at least one byte and not beyond the end cursor; the only other outcome
  is a failure. \<^verbatim>\<open>watchman_skip_value\<close> comes to an end whatever the bytes are: a
  nesting depth above the number of bytes that remain is never used up, and allowing
  more depth does not change the result.
\<close>

theorem watchman_decoding_progress:
  assumes "copy_within copy" and "length (rsp_payload r) < 2 ^ 63"
  shows "(\<forall>v r'. watchman_read_int r = Inr (v, r') \<longrightarrow> advanced r r')
       \<and> (\<forall>s r'. watchman_read_string_with copy r = Inr (s, r') \<longrightarrow> advanced r r')
       \<and> (\<forall>v r'. watchman_read_double r = Inr (v, r') \<longrightarrow> advanced r r')
       \<and> (\<forall>n r'. watchman_read_array r = Inr (n, r') \<longrightarrow> advanced r r')
       \<and> (\<forall>n r'. watchman_read_object r = Inr (n, r') \<longrightarrow> advanced r r')
       \<and> (\<forall>depth r'. watchman_skip_value_with copy depth r = Some (Inr r') \<longrightarrow> advanced r r')
       \<and> (\<forall>depth depth'. rsp_end r - rsp_ptr r < depth \<longrightarrow> depth \<le> depth' \<longrightarrow>
             watchman_skip_value_with copy depth r \<noteq> None
             \<and> watchman_skip_value_with copy depth' r = watchman_skip_value_with copy depth r)"
proof (intro conjI allI impI)
  fix v r' assume "watchman_read_int r = Inr (v, r')"
  then show "advanced r r'" by (rule watchman_read_int_advanced)
next
  fix s r' assume "watchman_read_string_with copy r = Inr (s, r')"
  with assms show "advanced r r'" by (rule watchman_read_string_advanced)
next
  fix v r' assume "watchman_read_double r = Inr (v, r')"
  then show "advanced r r'" by (rule watchman_read_double_advanced)
next
  fix n r' assume "watchman_read_array r = Inr (n, r')"
  then show "advanced r r'" unfolding watchman_read_array_def
    by (rule watchman_read_header_advanced)
next
  fix n r' assume "watchman_read_object r = Inr (n, r')"
  then show "advanced r r'" unfolding watchman_read_object_def
    by (rule watchman_read_header_advanced)
next
  fix depth r' assume "watchman_skip_value_with copy depth r = Some (Inr r')"
  with assms show "advanced r r'" by (rule watchman_skip_value_advanced)
next
  fix depth depth' :: nat assume "rsp_end r - rsp_ptr r < depth" and "depth \<le> depth'"
  with assms show "watchman_skip_value_with copy depth r \<noteq> None"
    using watchman_skip_value_returns by blast
next
  fix depth depth' :: nat assume d: "rsp_end r - rsp_ptr r < depth" and le: "depth \<le> depth'"
  from assms d obtain x where x: "watchman_skip_value_with copy depth r = Some x"
    using watchman_skip_value_returns by blast
  then have "watchman_skip_value_with copy depth' r = Some x"
    using le by (rule watchman_skip_value_depth_mono)
  then show "watchman_skip_value_with copy depth' r = watchman_skip_value_with copy depth r"
    using x by simp
qed


lemma repeat_skip_numeral [simp]:
  "repeat_skip (numeral k) step r =
     (case step r of
        None \<Rightarrow> None
      | Some (Inl e) \<Rightarrow> Some (Inl e)
      | Some (Inr r') \<Rightarrow> repeat_skip (pred_numeral k) step r')"
  by (simp add: numeral_eq_Suc)

theorem watchman_decoding_progress_witness:
  "copy_within str_new_copy
   \<and> length [0x04, 0xE8, 0x03 :: byte] < 2 ^ 63
   \<and> watchman_read_int \<lparr>rsp_capacity = 3, rsp_payload = [0x04, 0xE8, 0x03], rsp_ptr = 0, rsp_end = 3\<rparr>
       = Inr (1000, \<lparr>rsp_capacity = 3, rsp_payload = [0x04, 0xE8, 0x03], rsp_ptr = 3, rsp_end = 3\<rparr>)
   \<and> advanced \<lparr>rsp_capacity = 3, rsp_payload = [0x04, 0xE8, 0x03], rsp_ptr = 0, rsp_end = 3\<rparr>
               \<lparr>rsp_capacity = 3, rsp_payload = [0x04, 0xE8, 0x03], rsp_ptr = 3, rsp_end = 3\<rparr>
   \<and> length [0x02, 0x03, 0x01, 0x6b :: byte] < 2 ^ 63
   \<and> watchman_read_string
         \<lparr>rsp_capacity = 4, rsp_payload = [0x02, 0x03, 0x01, 0x6b], rsp_ptr = 0, rsp_end = 4\<rparr>
       = Inr ([0x6b], \<lparr>rsp_capacity = 4, rsp_payload = [0x02, 0x03, 0x01, 0x6b], rsp_ptr = 4, rsp_end = 4\<rparr>)
   \<and> advanced \<lparr>rsp_capacity = 4, rsp_payload = [0x02, 0x03, 0x01, 0x6b], rsp_ptr = 0, rsp_end = 4\<rparr>
               \<lparr>rsp_capacity = 4, rsp_payload = [0x02, 0x03, 0x01, 0x6b], rsp_ptr = 4, rsp_end = 4\<rparr>
   \<and> length [0x07, 0, 0, 0, 5, 0, 0, 0, 0, 0, 0, 0 :: byte] < 2 ^ 63
   \<and> watchman_read_double
         \<lparr>rsp_capacity = 12, rsp_payload = [0x07, 0, 0, 0, 5, 0, 0, 0, 0, 0, 0, 0],
          rsp_ptr = 0, rsp_end = 12\<rparr>
       = Inr (5, \<lparr>rsp_capacity = 12, rsp_payload = [0x07, 0, 0, 0, 5, 0, 0, 0, 0, 0, 0, 0],
                  rsp_ptr = 12, rsp_end = 12\<rparr>)
   \<and> advanced \<lparr>rsp_capacity = 12, rsp_payload = [0x07, 0, 0, 0, 5, 0, 0, 0, 0, 0, 0, 0],
                rsp_ptr = 0, rsp_end = 12\<rparr>
               \<lparr>rsp_capacity = 12, rsp_payload = [0x07, 0, 0, 0, 5, 0, 0, 0, 0, 0, 0, 0],
                rsp_ptr = 12, rsp_end = 12\<rparr>
   \<and> length [0x00, 0x03, 0x01, 0x0a :: byte] < 2 ^ 63
   \<and> watchman_read_array
         \<lparr>rsp_capacity = 4, rsp_payload = [0x00, 0x03, 0x01, 0x0a], rsp_ptr = 0, rsp_end = 4\<rparr>
       = Inr (1, \<lparr>rsp_capacity = 4, rsp_payload = [0x00, 0x03, 0x01, 0x0a], rsp_ptr = 3, rsp_end = 4\<rparr>)
   \<and> advanced \<lparr>rsp_capacity = 4, rsp_payload = [0x00, 0x03, 0x01, 0x0a], rsp_ptr = 0, rsp_end = 4\<rparr>
               \<lparr>rsp_capacity = 4, rsp_payload = [0x00, 0x03, 0x01, 0x0a], rsp_ptr = 3, rsp_end = 4\<rparr>
   \<and> watchman_skip_value (Suc (Suc (Suc (Suc (Suc 0)))))
         \<lparr>rsp_capacity = 4, rsp_payload = [0x00, 0x03, 0x01, 0x0a], rsp_ptr = 0, rsp_end = 4\<rparr>
       = Some (Inr \<lparr>rsp_capacity = 4, rsp_payload = [0x00, 0x03, 0x01, 0x0a], rsp_ptr = 4, rsp_end = 4\<rparr>)
   \<and> advanced \<lparr>rsp_capacity = 4, rsp_payload = [0x00, 0x03, 0x01, 0x0a], rsp_ptr = 0, rsp_end = 4\<rparr>
               \<lparr>rsp_capacity = 4, rsp_payload = [0x00, 0x03, 0x01, 0x0a], rsp_ptr = 4, rsp_end = 4\<rparr>
   \<and> watchman_skip_value (Suc (Suc (Suc (Suc (Suc (Suc 0))))))
         \<lparr>rsp_capacity = 4, rsp_payload = [0x00, 0x03, 0x01, 0x0a], rsp_ptr = 0, rsp_end = 4\<rparr>
       = watchman_skip_value (Suc (Suc (Suc (Suc (Suc 0)))))
         \<lparr>rsp_capacity = 4, rsp_payload = [0x00, 0x03, 0x01, 0x0a], rsp_ptr = 0, rsp_end = 4\<rparr>"
proof -
  let ?i = "\<lparr>rsp_capacity = 3, rsp_payload = [0x04, 0xE8, 0x03 :: byte], rsp_ptr = 0, rsp_end = 3\<rparr>"
  let ?s = "\<lparr>rsp_capacity = 4, rsp_payload = [0x02, 0x03, 0x01, 0x6b :: byte], rsp_ptr = 0, rsp_end = 4\<rparr>"
  let ?d = "\<lparr>rsp_capacity = 12, rsp_payload = [0x07, 0, 0, 0, 5, 0, 0, 0, 0, 0, 0, 0 :: byte],
             rsp_ptr = 0, rsp_end = 12\<rparr>"
  let ?a = "\<lparr>rsp_capacity = 4, rsp_payload = [0x00, 0x03, 0x01, 0x0a :: byte], rsp_ptr = 0, rsp_end = 4\<rparr>"
  have cw: "copy_within str_new_copy"
    by (auto simp: copy_within_def str_new_copy_def load_bytes_def split: if_splits)
  have li: "length (rsp_payload ?i) < 2 ^ 63" and ls: "length (rsp_payload ?s) < 2 ^ 63"
    and ld: "length (rsp_payload ?d) < 2 ^ 63" and la: "length (rsp_payload ?a) < 2 ^ 63"
    by simp_all
  have ei: "watchman_read_int ?i = Inr (1000, ?i\<lparr>rsp_ptr := 3\<rparr>)"
    by (simp add: watchman_read_int_def watchman_read_int_case_def load_byte_def load_bytes_def)
  have es: "watchman_read_string ?s = Inr ([0x6b], ?s\<lparr>rsp_ptr := 4\<rparr>)"
    by (simp add: watchman_read_string_with_def watchman_read_int_def watchman_read_int_case_def
        str_new_copy_def load_byte_def load_bytes_def)
  have ed: "watchman_read_double ?d = Inr (5, ?d\<lparr>rsp_ptr := 12\<rparr>)"
    by (simp add: watchman_read_double_def SIZEOF_DOUBLE_MARKER_def load_byte_def load_bytes_def)
  have ea: "watchman_read_array ?a = Inr (1, ?a\<lparr>rsp_ptr := 3\<rparr>)"
    by (simp add: watchman_read_array_def watchman_read_header_def watchman_read_int_def
        watchman_read_int_case_def load_byte_def load_bytes_def)
  have ek: "watchman_skip_value (Suc (Suc (Suc (Suc (Suc 0))))) ?a = Some (Inr (?a\<lparr>rsp_ptr := 4\<rparr>))"
    by (simp add: ea load_byte_def)
  have pi: "advanced ?i (?i\<lparr>rsp_ptr := 3\<rparr>)"
    using watchman_decoding_progress [OF cw li] ei by blast
  have ps: "advanced ?s (?s\<lparr>rsp_ptr := 4\<rparr>)"
    using watchman_decoding_progress [OF cw ls] es by blast
  have pd: "advanced ?d (?d\<lparr>rsp_ptr := 12\<rparr>)"
    using watchman_decoding_progress [OF cw ld] ed by blast
  have pa: "advanced ?a (?a\<lparr>rsp_ptr := 3\<rparr>)"
    using watchman_decoding_progress [OF cw la] ea by blast
  have pk: "advanced ?a (?a\<lparr>rsp_ptr := 4\<rparr>)"
    using watchman_decoding_progress [OF cw la] ek by blast
  have "rsp_end ?a - rsp_ptr ?a < Suc (Suc (Suc (Suc (Suc 0))))"
    and "Suc (Suc (Suc (Suc (Suc 0)))) \<le> Suc (Suc (Suc (Suc (Suc (Suc 0)))))" by simp_all
  then have pm: "watchman_skip_value (Suc (Suc (Suc (Suc (Suc (Suc 0)))))) ?a = watchman_skip_value (Suc (Suc (Suc (Suc (Suc 0))))) ?a"
    using watchman_decoding_progress [OF cw la] by blast
  show ?thesis
    using cw li ls ld la ei es ed ea ek pi ps pd pa pk pm by simp
qed

subsection \<open>Transport\<close>

text \<open>
  The connected socket. \<^verbatim>\<open>send\<close> and \<^verbatim>\<open>recv\<close> are system calls; what they return is up
  to the peer and the kernel, so the model takes it from two functions: the value
  \<^verbatim>\<open>send\<close> returns for a buffer and a number of bytes, and the outcome of the \<open>k\<close>-th
  call of \<^verbatim>\<open>recv\<close> for a given number of requested bytes (\<open>-1\<close>, or the bytes
  delivered). Every call is recorded, with the number of bytes asked for and the value
  returned.
\<close>

datatype recv_result = Recv_Error | Recv_Data "byte list"

datatype io_event = Send nat int | Recv nat int

record socket_t =
  sock_send :: "byte list \<Rightarrow> nat \<Rightarrow> int"
  sock_recv :: "nat \<Rightarrow> nat \<Rightarrow> recv_result"
  sock_recvs :: nat
  sock_log :: "io_event list"

definition send :: "socket_t \<Rightarrow> byte list \<Rightarrow> nat \<Rightarrow> int \<times> socket_t" where
  "send sock buf n =
     (let sent = sock_send sock buf n
      in (sent, sock\<lparr>sock_log := sock_log sock @ [Send n sent]\<rparr>))"

text \<open>
  \<^verbatim>\<open>recv\<close> stores the bytes it delivers, at most \<open>n\<close>, at the start of the buffer and
  returns their number.
\<close>

definition recv :: "socket_t \<Rightarrow> byte list \<Rightarrow> nat \<Rightarrow> int \<times> byte list \<times> socket_t" where
  "recv sock buf n =
     (case sock_recv sock (sock_recvs sock) n of
        Recv_Error \<Rightarrow>
          (-1, buf, sock\<lparr>sock_recvs := sock_recvs sock + 1, sock_log := sock_log sock @ [Recv n (-1)]\<rparr>)
      | Recv_Data bs \<Rightarrow>
          (let got = take n bs
           in (int (length got), got @ drop (length got) buf,
               sock\<lparr>sock_recvs := sock_recvs sock + 1,
                    sock_log := sock_log sock @ [Recv n (int (length got))]\<rparr>)))"

text \<open>
  Memory from \<^verbatim>\<open>xmalloc\<close> is not initialised: its contents are given by a function
  \<open>junk\<close> from offsets to bytes, about which nothing is known.

  Modelled from the spec: \<^verbatim>\<open>xrealloc\<close> (declared in \<^verbatim>\<open>xmalloc.h\<close>, defined outside the
  sources at hand). To "grow the response buffer if needed" it returns a block of the
  new size that starts with the old contents.
\<close>

definition xmalloc :: "(nat \<Rightarrow> byte) \<Rightarrow> nat \<Rightarrow> byte list" where
  "xmalloc junk n = map junk [0..<n]"

definition xrealloc :: "(nat \<Rightarrow> byte) \<Rightarrow> byte list \<Rightarrow> nat \<Rightarrow> byte list" where
  "xrealloc junk mem n = take n mem @ map junk [length mem..<n]"

text \<open>
  \<^verbatim>\<open>sizeof(WATCHMAN_BINARY_MARKER)\<close>: the two bytes of the marker and the NUL that ends
  the literal.
\<close>

definition SIZEOF_BINARY_MARKER :: nat where
  "SIZEOF_BINARY_MARKER = length WATCHMAN_BINARY_MARKER + 1"

definition SSIZE_MAX :: int where
  "SSIZE_MAX = 2 ^ 63 - 1"

definition sizes :: "nat list" where
  "sizes = [0, 0, 0, 1, 2, 4, 8]"

text \<open>
  \<^verbatim>\<open>watchman_send_query\<close>, in four parts that follow one another in the source: the
  send, the sniff of the header size, the peek at the size of the PDU, and the read of
  the PDU. Each part ends in a \<^verbatim>\<open>return\<close> or goes on to the next. The result is
  \<open>Inr None\<close> for \<^verbatim>\<open>return NULL\<close>. The two \<^verbatim>\<open>assert\<close>s are compiled out when \<^verbatim>\<open>NDEBUG\<close> is
  defined (the default of the Makefile) and abort otherwise; \<open>ndebug\<close> says which.
  \<^verbatim>\<open>payload_size\<close> is an \<^verbatim>\<open>int64_t\<close>; it is converted to \<^verbatim>\<open>size_t\<close> where it is compared
  with the capacity and passed to \<^verbatim>\<open>recv\<close>.
\<close>

definition watchman_read_pdu ::
  "bool \<Rightarrow> (nat \<Rightarrow> byte) \<Rightarrow> watchman_response_t \<Rightarrow> nat \<Rightarrow> 64 word \<Rightarrow> socket_t
     \<Rightarrow> (failure + watchman_response_t option) \<times> socket_t" where
  "watchman_read_pdu ndebug junk r peek_size payload_size sock =
     (if \<not> ndebug \<and> \<not> sint payload_size > 0 then (Inl Abort, sock)
      else
        let r1 = (if unat payload_size > rsp_capacity r
                  then r\<lparr>rsp_payload := xrealloc junk (rsp_payload r) (unat payload_size)\<rparr>
                  else r);
            (received, buf, sock1) = recv sock (rsp_payload r1) (unat payload_size);
            r2 = r1\<lparr>rsp_payload := buf\<rparr>
        in
        if received = -1 \<or> received \<noteq> sint payload_size then (Inr None, sock1)
        else
          (Inr (Some (r2\<lparr>rsp_ptr := peek_size,
                          rsp_end := peek_size + nat (sint payload_size),
                          rsp_capacity := unat payload_size\<rparr>)),
           sock1))"

definition watchman_peek_pdu_size ::
  "bool \<Rightarrow> (nat \<Rightarrow> byte) \<Rightarrow> watchman_response_t \<Rightarrow> nat \<Rightarrow> socket_t
     \<Rightarrow> (failure + watchman_response_t option) \<times> socket_t" where
  "watchman_peek_pdu_size ndebug junk r peek_size sock =
     (let (received, buf, sock1) = recv sock (rsp_payload r) peek_size;
          r1 = r\<lparr>rsp_payload := buf\<rparr>
      in
      if received = -1 \<or> received \<noteq> int peek_size then (Inr None, sock1)
      else
        let r2 = r1\<lparr>rsp_ptr := rsp_ptr r1 + SIZEOF_BINARY_MARKER - 1\<rparr>;
            r3 = r2\<lparr>rsp_end := rsp_ptr r2 + peek_size\<rparr>
        in
        (case watchman_read_int r3 of
           Inl e \<Rightarrow> (Inl e, sock1)
         | Inr (v, r4) \<Rightarrow> watchman_read_pdu ndebug junk r4 peek_size (of_nat peek_size + v) sock1))"

definition watchman_sniff_header ::
  "bool \<Rightarrow> (nat \<Rightarrow> byte) \<Rightarrow> watchman_response_t \<Rightarrow> socket_t
     \<Rightarrow> (failure + watchman_response_t option) \<times> socket_t" where
  "watchman_sniff_header ndebug junk r sock =
     (let (received, buf, sock1) = recv sock (rsp_payload r) WATCHMAN_SNIFF_BUFFER_SIZE;
          r1 = r\<lparr>rsp_payload := buf\<rparr>
      in
      if received = -1 \<or> received \<noteq> int WATCHMAN_SNIFF_BUFFER_SIZE then (Inr None, sock1)
      else
        (case load_byte (rsp_payload r1) (rsp_ptr r1 + (SIZEOF_BINARY_MARKER - 1)) of
           Inl e \<Rightarrow> (Inl e, sock1)
         | Inr b \<Rightarrow>
             let sizes_idx = sint b in
             if sizes_idx < sint WATCHMAN_INT8_MARKER \<or> sizes_idx > sint WATCHMAN_INT64_MARKER
             then (Inr None, sock1)
             else
               watchman_peek_pdu_size ndebug junk r1
                 (SIZEOF_BINARY_MARKER - 1 + 1 + sizes ! nat sizes_idx) sock1))"

definition watchman_send_query ::
  "bool \<Rightarrow> (nat \<Rightarrow> byte) \<Rightarrow> watchman_request_t \<Rightarrow> socket_t
     \<Rightarrow> (failure + watchman_response_t option) \<times> socket_t" where
  "watchman_send_query ndebug junk w sock =
     (let r = \<lparr>rsp_capacity = WATCHMAN_DEFAULT_STORAGE,
               rsp_payload = xmalloc junk WATCHMAN_DEFAULT_STORAGE,
               rsp_ptr = 0, rsp_end = 0\<rparr>
      in
      if \<not> ndebug \<and> \<not> int (req_length w) < SSIZE_MAX then (Inl Abort, sock)
      else
        let len = int (req_length w);
            (sent, sock1) = send sock (req_payload w) (req_length w)
        in
        if sent = -1 \<or> sent \<noteq> len then (Inr None, sock1)
        else watchman_sniff_header ndebug junk r sock1)"

text \<open>
  A peer that accepts every request in full and has the bytes \<open>reply\<close> ready to be
  read: a peek shows the first bytes of the reply, as many as asked for if there are
  that many.
\<close>

definition reply_socket :: "byte list \<Rightarrow> socket_t" where
  "reply_socket reply =
     \<lparr>sock_send = (\<lambda>buf n. int n),
      sock_recv = (\<lambda>k n. Recv_Data (take n reply)),
      sock_recvs = 0,
      sock_log = []\<rparr>"


subsection \<open>Query operations\<close>

text \<open>
  The messages are written by a straight sequence of calls, each of which may fail;
  the sequence stops at the first failure.
\<close>

definition and_then :: "failure + 'a \<Rightarrow> ('a \<Rightarrow> failure + 'b) \<Rightarrow> failure + 'b" where
  "and_then m f = (case m of Inl e \<Rightarrow> Inl e | Inr x \<Rightarrow> f x)"

fun run_writes ::
  "failure + watchman_request_t \<Rightarrow> (watchman_request_t \<Rightarrow> failure + watchman_request_t) list
     \<Rightarrow> failure + watchman_request_t" where
  "run_writes m [] = m"
| "run_writes m (f # fs) = run_writes (and_then m f) fs"

text \<open>
  The part of \<^verbatim>\<open>commandt_watchman_query\<close> that prepares the message. \<open>root\<close> and
  \<open>relative_root\<close> are the memory behind the two \<^verbatim>\<open>const char *\<close> arguments;
  \<open>relative_root\<close> is \<open>None\<close> for a null pointer.
\<close>

definition watchman_query_request ::
  "byte list \<Rightarrow> byte list option \<Rightarrow> failure + watchman_request_t" where
  "watchman_query_request root relative_root =
     run_writes watchman_init
       ([\<lambda>w. watchman_write_array w 3,
         \<lambda>w. watchman_write_string w (c_str ''query'') (length (c_str ''query'')),
         \<lambda>w. watchman_write_string w root (strlen root),
         \<lambda>w. watchman_write_object w (if relative_root \<noteq> None then 3 else 2),
         \<lambda>w. watchman_write_string w (c_str ''expression'') (length (c_str ''expression'')),
         \<lambda>w. watchman_write_array w 2,
         \<lambda>w. watchman_write_string w (c_str ''type'') (length (c_str ''type'')),
         \<lambda>w. watchman_write_string w (c_str ''f'') (length (c_str ''f'')),
         \<lambda>w. watchman_write_string w (c_str ''fields'') (length (c_str ''fields'')),
         \<lambda>w. watchman_write_array w 1,
         \<lambda>w. watchman_write_string w (c_str ''name'') (length (c_str ''name''))]
        @ (case relative_root of
             None \<Rightarrow> []
           | Some rr \<Rightarrow>
               [\<lambda>w. watchman_write_string w (c_str ''relative_root'')
                       (length (c_str ''relative_root'')),
                \<lambda>w. watchman_write_string w rr (strlen rr)]))"

text \<open>
  \<^verbatim>\<open>commandt_watchman_query\<close>. The response is handed to \<^verbatim>\<open>watchman_response_free\<close>,
  which reads \<^verbatim>\<open>r->payload\<close>: a fault when the response is \<^verbatim>\<open>NULL\<close>. The result is a
  fresh block from \<^verbatim>\<open>xmalloc\<close>; the type \<^verbatim>\<open>watchman_query_result_t\<close> is declared in
  \<^verbatim>\<open>watchman.h\<close>, outside the sources at hand, and no field of it is written, so the
  result is whatever the block holds: the argument \<open>fresh\<close>.
\<close>

definition commandt_watchman_query ::
  "bool \<Rightarrow> (nat \<Rightarrow> byte) \<Rightarrow> 'res \<Rightarrow> byte list \<Rightarrow> byte list option \<Rightarrow> socket_t
     \<Rightarrow> failure + 'res" where
  "commandt_watchman_query ndebug junk fresh root relative_root sock =
     (case watchman_query_request root relative_root of
        Inl e \<Rightarrow> Inl e
      | Inr w \<Rightarrow>
          (case fst (watchman_send_query ndebug junk w sock) of
             Inl e \<Rightarrow> Inl e
           | Inr None \<Rightarrow> Inl Fault
           | Inr (Some response) \<Rightarrow> Inr fresh))"

text \<open>
  \<^verbatim>\<open>strncmp(a, b, n) == 0\<close>: the first \<open>n\<close> bytes agree, or the bytes agree up to a
  NUL that both have at the same place. Where a list ends, a NUL follows.
\<close>

fun strncmp_eq :: "byte list \<Rightarrow> byte list \<Rightarrow> nat \<Rightarrow> bool" where
  "strncmp_eq a b 0 = True"
| "strncmp_eq a b (Suc n) =
     (let x = (case a of [] \<Rightarrow> 0 | c # _ \<Rightarrow> c);
          y = (case b of [] \<Rightarrow> 0 | c # _ \<Rightarrow> c)
      in if x \<noteq> y then False
         else if x = 0 then True
         else strncmp_eq (tl a) (tl b) n)"

text \<open>
  The test \<^verbatim>\<open>key->length == sizeof("...") - 1 && strncmp(key->contents, "...", key->length) == 0\<close>.
\<close>

definition key_is :: "byte list \<Rightarrow> string \<Rightarrow> bool" where
  "key_is key lit \<longleftrightarrow>
     length key = length (c_str lit) - 1 \<and> strncmp_eq key (c_str lit) (length key)"

text \<open>
  \<^verbatim>\<open>watchman_watch_project_result_t\<close>: the two fields that the function assigns, each a
  pointer to a string or \<^verbatim>\<open>NULL\<close> (as \<^verbatim>\<open>xcalloc\<close> leaves them).
\<close>

record watchman_watch_project_result_t =
  watch :: "byte list option"
  relative_path :: "byte list option"

text \<open>
  The loop of \<^verbatim>\<open>commandt_watchman_watch_project\<close> over the \<open>n\<close> pairs that are left.
  \<^verbatim>\<open>watchman_skip_value\<close> is given a nesting depth above the number of bytes that
  remain, which it cannot use up.
\<close>

fun watch_project_pairs ::
  "nat \<Rightarrow> watchman_response_t \<Rightarrow> watchman_watch_project_result_t
     \<Rightarrow> (failure + watchman_response_t \<times> watchman_watch_project_result_t) option" where
  "watch_project_pairs 0 r result = Some (Inr (r, result))"
| "watch_project_pairs (Suc n) r result =
     (case watchman_read_string r of
        Inl e \<Rightarrow> Some (Inl e)
      | Inr (key, r1) \<Rightarrow>
          if key_is key ''watch'' then
            (case watchman_read_string r1 of
               Inl e \<Rightarrow> Some (Inl e)
             | Inr (s, r2) \<Rightarrow> watch_project_pairs n r2 (result\<lparr>watch := Some s\<rparr>))
          else if key_is key ''relative_path'' then
            (case watchman_read_string r1 of
               Inl e \<Rightarrow> Some (Inl e)
             | Inr (s, r2) \<Rightarrow> watch_project_pairs n r2 (result\<lparr>relative_path := Some s\<rparr>))
          else if key_is key ''error'' then Some (Inl Abort)
          else
            (case watchman_skip_value (Suc (rsp_end r1 - rsp_ptr r1)) r1 of
               None \<Rightarrow> None
             | Some (Inl e) \<Rightarrow> Some (Inl e)
             | Some (Inr r2) \<Rightarrow> watch_project_pairs n r2 result))"

text \<open>
  The part of \<^verbatim>\<open>commandt_watchman_watch_project\<close> that processes the response.
\<close>

definition watch_project_decode ::
  "watchman_response_t \<Rightarrow> (failure + watchman_watch_project_result_t) option" where
  "watch_project_decode r =
     (let result = \<lparr>watch = None, relative_path = None\<rparr> in
      case watchman_read_object r of
        Inl e \<Rightarrow> Some (Inl e)
      | Inr (cnt, r1) \<Rightarrow>
          (case watch_project_pairs cnt r1 result of
             None \<Rightarrow> None
           | Some (Inl e) \<Rightarrow> Some (Inl e)
           | Some (Inr (r2, result')) \<Rightarrow>
               if watch result' = None then Some (Inl Abort) else Some (Inr result')))"

definition watchman_watch_project_request :: "byte list \<Rightarrow> failure + watchman_request_t" where
  "watchman_watch_project_request root =
     run_writes watchman_init
       [\<lambda>w. watchman_write_array w 2,
        \<lambda>w. watchman_write_string w (c_str ''watch-project'') (length (c_str ''watch-project'')),
        \<lambda>w. watchman_write_string w root (strlen root)]"

text \<open>
  \<^verbatim>\<open>commandt_watchman_watch_project\<close>. A \<^verbatim>\<open>NULL\<close> response goes to
  \<^verbatim>\<open>watchman_read_object\<close> unchecked, which reads \<^verbatim>\<open>r->ptr\<close>: a fault.
\<close>

definition commandt_watchman_watch_project ::
  "bool \<Rightarrow> (nat \<Rightarrow> byte) \<Rightarrow> byte list \<Rightarrow> socket_t
     \<Rightarrow> (failure + watchman_watch_project_result_t) option" where
  "commandt_watchman_watch_project ndebug junk root sock =
     (case watchman_watch_project_request root of
        Inl e \<Rightarrow> Some (Inl e)
      | Inr w \<Rightarrow>
          (case fst (watchman_send_query ndebug junk w sock) of
             Inl e \<Rightarrow> Some (Inl e)
           | Inr None \<Rightarrow> Some (Inl Fault)
           | Inr (Some r) \<Rightarrow> watch_project_decode r))"

lemmas decode_defs =
  watchman_read_object_def watchman_read_array_def watchman_read_header_def
  watchman_read_string_with_def watchman_read_int_def watchman_read_int_case_def
  watchman_read_double_def SIZEOF_DOUBLE_MARKER_def str_new_copy_def load_byte_def load_bytes_def

text \<open>Unfolding \<^verbatim>\<open>watchman_skip_value\<close> at a depth given as a numeral.\<close>

definition skip_value_step ::
  "nat \<Rightarrow> watchman_response_t \<Rightarrow> (failure + watchman_response_t) option" where
  "skip_value_step depth r = watchman_skip_value (Suc depth) r"

lemmas skip_value_step_unfold [simp] =
  watchman_skip_value_with.simps(2) [where copy = str_new_copy, folded skip_value_step_def]

lemma watchman_skip_value_numeral [simp]:
  "watchman_skip_value (numeral k) r = skip_value_step (pred_numeral k) r"
  by (simp only: skip_value_step_def numeral_eq_Suc)

lemma skip_object_example_reads:
  "watchman_read_object
     \<lparr>rsp_capacity = 9, rsp_payload = [0x01, 0x03, 0x01, 0x02, 0x03, 0x01, 0x6b, 0x03, 0x05],
      rsp_ptr = 0, rsp_end = 9\<rparr>
   = Inr (1, \<lparr>rsp_capacity = 9, rsp_payload = [0x01, 0x03, 0x01, 0x02, 0x03, 0x01, 0x6b, 0x03, 0x05],
              rsp_ptr = 3, rsp_end = 9\<rparr>)"
  by (simp add: decode_defs)

text \<open>
  Claim C5, at the object \<open>{"k": 5}\<close>, whose encoding is what \<^verbatim>\<open>watchman_write_object\<close>,
  \<^verbatim>\<open>watchman_write_string\<close> and \<^verbatim>\<open>watchman_write_int\<close> write for it. Decoding it field by
  field (the header, then for its one pair the key and the value, as the loop of
  \<^verbatim>\<open>commandt_watchman_watch_project\<close> does) ends at offset 9, the end of the value.
  \<^verbatim>\<open>watchman_skip_value\<close> ends at offset 7: it reads the number of pairs and skips that
  many values, which is the key only.
\<close>

theorem watchman_skip_value_object_half:
  "watchman_skip_value (Suc (Suc depth))
     \<lparr>rsp_capacity = 9, rsp_payload = [0x01, 0x03, 0x01, 0x02, 0x03, 0x01, 0x6b, 0x03, 0x05],
      rsp_ptr = 0, rsp_end = 9\<rparr>
   = Some (Inr \<lparr>rsp_capacity = 9,
                 rsp_payload = [0x01, 0x03, 0x01, 0x02, 0x03, 0x01, 0x6b, 0x03, 0x05],
                 rsp_ptr = 7, rsp_end = 9\<rparr>)
   \<and> watchman_read_object
       \<lparr>rsp_capacity = 9, rsp_payload = [0x01, 0x03, 0x01, 0x02, 0x03, 0x01, 0x6b, 0x03, 0x05],
        rsp_ptr = 0, rsp_end = 9\<rparr>
     = Inr (1, \<lparr>rsp_capacity = 9,
                rsp_payload = [0x01, 0x03, 0x01, 0x02, 0x03, 0x01, 0x6b, 0x03, 0x05],
                rsp_ptr = 3, rsp_end = 9\<rparr>)
   \<and> watchman_read_string
       \<lparr>rsp_capacity = 9, rsp_payload = [0x01, 0x03, 0x01, 0x02, 0x03, 0x01, 0x6b, 0x03, 0x05],
        rsp_ptr = 3, rsp_end = 9\<rparr>
     = Inr ([0x6b], \<lparr>rsp_capacity = 9,
                     rsp_payload = [0x01, 0x03, 0x01, 0x02, 0x03, 0x01, 0x6b, 0x03, 0x05],
                     rsp_ptr = 7, rsp_end = 9\<rparr>)
   \<and> watchman_read_int
       \<lparr>rsp_capacity = 9, rsp_payload = [0x01, 0x03, 0x01, 0x02, 0x03, 0x01, 0x6b, 0x03, 0x05],
        rsp_ptr = 7, rsp_end = 9\<rparr>
     = Inr (5, \<lparr>rsp_capacity = 9,
                rsp_payload = [0x01, 0x03, 0x01, 0x02, 0x03, 0x01, 0x6b, 0x03, 0x05],
                rsp_ptr = 9, rsp_end = 9\<rparr>)"
  by (simp add: decode_defs)

lemma object_example_encoding:
  "\<exists>w. run_writes watchman_init
          [\<lambda>w. watchman_write_object w 1,
           \<lambda>w. watchman_write_string w [0x6b] 1,
           \<lambda>w. watchman_write_int w 5] = Inr w
       \<and> wire w = WATCHMAN_HEADER @ [0x01, 0x03, 0x01, 0x02, 0x03, 0x01, 0x6b, 0x03, 0x05]"
  by (simp add: watchman_init_def watchman_append_def and_then_def watchman_write_object_def
      watchman_write_string_def watchman_write_int_def wire_def WATCHMAN_HEADER_def
      WATCHMAN_DEFAULT_STORAGE_def)

lemma watch_project_pairs_numeral [simp]:
  "watch_project_pairs (numeral k) r result =
     (case watchman_read_string r of
        Inl e \<Rightarrow> Some (Inl e)
      | Inr (key, r1) \<Rightarrow>
          if key_is key ''watch'' then
            (case watchman_read_string r1 of
               Inl e \<Rightarrow> Some (Inl e)
             | Inr (s, r2) \<Rightarrow>
                 watch_project_pairs (pred_numeral k) r2 (result\<lparr>watch := Some s\<rparr>))
          else if key_is key ''relative_path'' then
            (case watchman_read_string r1 of
               Inl e \<Rightarrow> Some (Inl e)
             | Inr (s, r2) \<Rightarrow>
                 watch_project_pairs (pred_numeral k) r2 (result\<lparr>relative_path := Some s\<rparr>))
          else if key_is key ''error'' then Some (Inl Abort)
          else
            (case watchman_skip_value (Suc (rsp_end r1 - rsp_ptr r1)) r1 of
               None \<Rightarrow> None
             | Some (Inl e) \<Rightarrow> Some (Inl e)
             | Some (Inr r2) \<Rightarrow> watch_project_pairs (pred_numeral k) r2 result))"
  by (simp add: numeral_eq_Suc)

text \<open>
  Claim C3, at the response \<open>{"x": {"k": 5}, "watch": "/r"}\<close>: the key \<open>"x"\<close> is none of
  the three that the function knows, its value is skipped, and the skip stops inside
  that value; the next key is then read at the integer 5 and the function aborts,
  although the response has a \<open>"watch"\<close> key and no \<open>"error"\<close> key.
\<close>

theorem watch_project_decode_nested_object:
  "watch_project_decode
     \<lparr>rsp_capacity = 29,
      rsp_payload =
        [0x01, 0x03, 0x02,
         0x02, 0x03, 0x01, 0x78,
         0x01, 0x03, 0x01, 0x02, 0x03, 0x01, 0x6b, 0x03, 0x05,
         0x02, 0x03, 0x05, 0x77, 0x61, 0x74, 0x63, 0x68,
         0x02, 0x03, 0x02, 0x2f, 0x72],
      rsp_ptr = 0, rsp_end = 29\<rparr>
   = Some (Inl Abort)"
  by (simp add: watch_project_decode_def decode_defs key_is_def c_str_def bytes_of_def)

lemma watch_project_decode_flat:
  "watch_project_decode
     \<lparr>rsp_capacity = 22,
      rsp_payload =
        [0x01, 0x03, 0x02,
         0x02, 0x03, 0x01, 0x78,
         0x03, 0x05,
         0x02, 0x03, 0x05, 0x77, 0x61, 0x74, 0x63, 0x68,
         0x02, 0x03, 0x02, 0x2f, 0x72],
      rsp_ptr = 0, rsp_end = 22\<rparr>
   = Some (Inr \<lparr>watch = Some [0x2f, 0x72], relative_path = None\<rparr>)"
  by (simp add: watch_project_decode_def decode_defs key_is_def c_str_def bytes_of_def)

fun short_io :: "io_event \<Rightarrow> bool" where
  "short_io (Send n ret) \<longleftrightarrow> ret \<noteq> int n"
| "short_io (Recv n ret) \<longleftrightarrow> ret \<noteq> int n"

lemma send_log:
  "send sock buf n = (ret, sock') \<Longrightarrow> sock_log sock' = sock_log sock @ [Send n ret]"
  by (auto simp: send_def Let_def)

lemma recv_log:
  "recv sock buf n = (ret, buf', sock') \<Longrightarrow> sock_log sock' = sock_log sock @ [Recv n ret]"
  by (auto simp: recv_def Let_def split: recv_result.splits)

lemma uint_small_of_sint_nonneg:
  fixes p :: "64 word"
  assumes "0 \<le> sint p"
  shows "uint p < 2 ^ 63"
proof -
  have nb: "\<not> bit p 63" using assms bit_last_iff [of p] by simp
  have "take_bit (Suc 63) (uint p) = uint p"
  proof (rule take_bit_int_eq_self)
    show "0 \<le> uint p" by simp
    show "uint p < 2 ^ Suc 63" using uint_lt2p [of p] by simp
  qed
  then have "uint p = take_bit (Suc 63) (uint p)" by simp
  also have "\<dots> = 2 ^ 63 * of_bool (bit (uint p) 63) + take_bit 63 (uint p)"
    by (rule take_bit_Suc_from_most)
  also have "\<dots> = take_bit 63 (uint p)" using nb by (simp add: bit_uint_iff)
  finally have "uint p = take_bit 63 (uint p)" .
  moreover have "take_bit 63 (uint p) < 2 ^ 63" by (rule take_bit_int_less_exp)
  ultimately show ?thesis by simp
qed

lemma sint_nonneg_unat:
  fixes p :: "64 word"
  assumes "0 \<le> sint p"
  shows "sint p = int (unat p)"
proof -
  have u: "uint p < 2 ^ 63" using assms by (rule uint_small_of_sint_nonneg)
  have "sint p = signed_take_bit 63 (uint p)" by (simp add: sint_uint)
  also have "\<dots> = uint p"
  proof (rule signed_take_bit_int_eq_self)
    have "- (2 ^ 63) \<le> (0::int)" by simp
    also have "0 \<le> uint p" by simp
    finally show "- (2 ^ 63) \<le> uint p" .
    show "uint p < 2 ^ 63" using u .
  qed
  finally show ?thesis by simp
qed

lemma recv_facts:
  "recv sock buf n = (ret, buf', sock')
     \<Longrightarrow> sock_log sock' = sock_log sock @ [Recv n ret] \<and> (ret = -1 \<or> 0 \<le> ret)"
  by (auto simp: recv_def Let_def split: recv_result.splits)

definition all_complete :: "socket_t \<Rightarrow> bool" where
  "all_complete sock \<longleftrightarrow> (\<forall>e \<in> set (sock_log sock). \<not> short_io e)"

lemma watchman_read_pdu_short:
  assumes q: "watchman_read_pdu ndebug junk r peek_size payload_size sock = (res, sock')"
    and clean: "all_complete sock"
    and sh: "\<not> all_complete sock'"
  shows "res = Inr None"
proof (cases "\<not> ndebug \<and> \<not> sint payload_size > 0")
  case True
  then have "sock' = sock" using q by (simp add: watchman_read_pdu_def)
  then show ?thesis using clean sh by simp
next
  case False
  obtain received buf sock1 where
    rc: "recv sock (rsp_payload (if unat payload_size > rsp_capacity r
                  then r\<lparr>rsp_payload := xrealloc junk (rsp_payload r) (unat payload_size)\<rparr>
                  else r)) (unat payload_size) = (received, buf, sock1)"
    by (metis prod_cases3)
  note f = recv_facts [OF rc]
  show ?thesis
  proof (cases "received = -1 \<or> received \<noteq> sint payload_size")
    case True
    then show ?thesis using q False rc by (simp add: watchman_read_pdu_def Let_def)
  next
    case ok: False
    then have s': "sock' = sock1" using q False rc by (simp add: watchman_read_pdu_def Let_def)
    from ok f have "0 \<le> sint payload_size" by auto
    then have "sint payload_size = int (unat payload_size)" by (rule sint_nonneg_unat)
    then have "\<not> short_io (Recv (unat payload_size) received)" using ok by simp
    then have "all_complete sock1" using clean f by (auto simp: all_complete_def)
    then show ?thesis using sh s' by simp
  qed
qed

lemma watchman_peek_pdu_size_short:
  assumes q: "watchman_peek_pdu_size ndebug junk r peek_size sock = (res, sock')"
    and clean: "all_complete sock"
    and sh: "\<not> all_complete sock'"
  shows "res = Inr None"
proof -
  obtain received buf sock1 where rc: "recv sock (rsp_payload r) peek_size = (received, buf, sock1)"
    by (metis prod_cases3)
  note f = recv_facts [OF rc]
  show ?thesis
  proof (cases "received = -1 \<or> received \<noteq> int peek_size")
    case True
    then show ?thesis using q rc by (simp add: watchman_peek_pdu_size_def Let_def)
  next
    case ok: False
    then have c1: "all_complete sock1" using clean f by (auto simp: all_complete_def)
    define r3 where "r3 = r\<lparr>rsp_payload := buf, rsp_ptr := rsp_ptr r + SIZEOF_BINARY_MARKER - 1,
                             rsp_end := rsp_ptr r + SIZEOF_BINARY_MARKER - 1 + peek_size\<rparr>"
    have q': "(case watchman_read_int r3 of
                 Inl e \<Rightarrow> (Inl e, sock1)
               | Inr (v, r4) \<Rightarrow>
                   watchman_read_pdu ndebug junk r4 peek_size (of_nat peek_size + v) sock1)
              = (res, sock')"
      using q rc ok by (simp add: watchman_peek_pdu_size_def Let_def r3_def)
    show ?thesis
    proof (cases "watchman_read_int r3")
      case (Inl e)
      then have "sock' = sock1" using q' by simp
      then show ?thesis using c1 sh by simp
    next
      case (Inr p)
      obtain v r4 where p: "p = (v, r4)" by (cases p)
      have "watchman_read_pdu ndebug junk r4 peek_size (of_nat peek_size + v) sock1 = (res, sock')"
        using q' Inr p by simp
      then show ?thesis using c1 sh by (rule watchman_read_pdu_short)
    qed
  qed
qed

lemma watchman_sniff_header_short:
  assumes q: "watchman_sniff_header ndebug junk r sock = (res, sock')"
    and clean: "all_complete sock"
    and sh: "\<not> all_complete sock'"
  shows "res = Inr None"
proof -
  obtain received buf sock1 where
    rc: "recv sock (rsp_payload r) WATCHMAN_SNIFF_BUFFER_SIZE = (received, buf, sock1)"
    by (metis prod_cases3)
  note f = recv_facts [OF rc]
  show ?thesis
  proof (cases "received = -1 \<or> received \<noteq> int WATCHMAN_SNIFF_BUFFER_SIZE")
    case True
    then show ?thesis using q rc by (simp add: watchman_sniff_header_def Let_def)
  next
    case ok: False
    then have c1: "all_complete sock1" using clean f by (auto simp: all_complete_def)
    have q': "(case load_byte buf (rsp_ptr r + (SIZEOF_BINARY_MARKER - 1)) of
           Inl e \<Rightarrow> (Inl e, sock1)
         | Inr b \<Rightarrow>
             let sizes_idx = sint b in
             if sizes_idx < sint WATCHMAN_INT8_MARKER \<or> sizes_idx > sint WATCHMAN_INT64_MARKER
             then (Inr None, sock1)
             else
               watchman_peek_pdu_size ndebug junk (r\<lparr>rsp_payload := buf\<rparr>)
                 (SIZEOF_BINARY_MARKER - 1 + 1 + sizes ! nat sizes_idx) sock1) = (res, sock')"
      using q rc ok by (simp add: watchman_sniff_header_def Let_def)
    show ?thesis
    proof (cases "load_byte buf (rsp_ptr r + (SIZEOF_BINARY_MARKER - 1))")
      case (Inl e)
      then have "sock' = sock1" using q' by simp
      then show ?thesis using c1 sh by simp
    next
      case (Inr b)
      show ?thesis
      proof (cases "sint b < sint WATCHMAN_INT8_MARKER \<or> sint b > sint WATCHMAN_INT64_MARKER")
        case True
        then show ?thesis using q' Inr by (simp add: Let_def)
      next
        case False
        then have "watchman_peek_pdu_size ndebug junk (r\<lparr>rsp_payload := buf\<rparr>)
                 (SIZEOF_BINARY_MARKER - 1 + 1 + sizes ! nat (sint b)) sock1 = (res, sock')"
          using q' Inr by (simp add: Let_def)
        then show ?thesis using c1 sh by (rule watchman_peek_pdu_size_short)
      qed
    qed
  qed
qed

lemma watchman_send_query_short:
  assumes q: "watchman_send_query ndebug junk w sock = (res, sock')"
    and clean: "all_complete sock"
    and sh: "\<not> all_complete sock'"
  shows "res = Inr None"
proof (cases "\<not> ndebug \<and> \<not> int (req_length w) < SSIZE_MAX")
  case True
  then have "sock' = sock" using q by (simp add: watchman_send_query_def)
  then show ?thesis using clean sh by simp
next
  case False
  obtain sent sock1 where sd: "send sock (req_payload w) (req_length w) = (sent, sock1)"
    by (cases "send sock (req_payload w) (req_length w)")
  note l = send_log [OF sd]
  show ?thesis
  proof (cases "sent = -1 \<or> sent \<noteq> int (req_length w)")
    case True
    then show ?thesis using q False sd by (simp add: watchman_send_query_def Let_def)
  next
    case ok: False
    then have c1: "all_complete sock1" using clean l by (auto simp: all_complete_def)
    have "watchman_sniff_header ndebug junk
            \<lparr>rsp_capacity = WATCHMAN_DEFAULT_STORAGE,
             rsp_payload = xmalloc junk WATCHMAN_DEFAULT_STORAGE,
             rsp_ptr = 0, rsp_end = 0\<rparr> sock1 = (res, sock')"
      using q False sd ok by (simp add: watchman_send_query_def Let_def)
    then show ?thesis using c1 sh by (rule watchman_sniff_header_short)
  qed
qed


text \<open>
  Claim C6. Start \<^verbatim>\<open>watchman_send_query\<close> on a socket with nothing recorded yet. If any
  call that it makes returns something else than the number of bytes asked for (the
  \<^verbatim>\<open>send\<close>, or one of the three \<^verbatim>\<open>recv\<close>s: an error or fewer bytes), the function returns
  \<^verbatim>\<open>NULL\<close>, and so no response at all.
\<close>

theorem watchman_send_query_short_io:
  assumes "watchman_send_query ndebug junk w sock = (res, sock')"
    and "sock_log sock = []"
  shows "(\<exists>e \<in> set (sock_log sock'). short_io e) \<longrightarrow> res = Inr None"
proof
  assume "\<exists>e \<in> set (sock_log sock'). short_io e"
  then have "\<not> all_complete sock'" by (simp add: all_complete_def)
  moreover have "all_complete sock" using assms(2) by (simp add: all_complete_def)
  ultimately show "res = Inr None"
    using assms(1) watchman_send_query_short by blast
qed

theorem watchman_send_query_short_io_witness:
  "sock_log \<lparr>sock_send = (\<lambda>buf n. int n),
             sock_recv = (\<lambda>k n. if k < 2 then Recv_Data (take n [0x00, 0x01, 0x03, 0x05]) else Recv_Data []),
             sock_recvs = 0, sock_log = []\<rparr> = []
   \<and> sock_log (snd (watchman_send_query True (\<lambda>i. 0)
                      \<lparr>req_payload = [0x00, 0x01, 0x03, 0x01, 0x0a], req_capacity = 5, req_length = 5\<rparr>
                      \<lparr>sock_send = (\<lambda>buf n. int n),
                       sock_recv = (\<lambda>k n. if k < 2 then Recv_Data (take n [0x00, 0x01, 0x03, 0x05])
                                            else Recv_Data []),
                       sock_recvs = 0, sock_log = []\<rparr>))
       = [Send 5 5, Recv 3 3, Recv 4 4, Recv 9 0]
   \<and> short_io (Recv 9 0)
   \<and> fst (watchman_send_query True (\<lambda>i. 0)
            \<lparr>req_payload = [0x00, 0x01, 0x03, 0x01, 0x0a], req_capacity = 5, req_length = 5\<rparr>
            \<lparr>sock_send = (\<lambda>buf n. int n),
             sock_recv = (\<lambda>k n. if k < 2 then Recv_Data (take n [0x00, 0x01, 0x03, 0x05])
                                  else Recv_Data []),
             sock_recvs = 0, sock_log = []\<rparr>)
       = Inr None"
proof -
  let ?w = "\<lparr>req_payload = [0x00, 0x01, 0x03, 0x01, 0x0a :: byte], req_capacity = 5, req_length = 5\<rparr>"
  let ?s = "\<lparr>sock_send = (\<lambda>(buf :: byte list) n. int n),
             sock_recv = (\<lambda>k n. if k < (2::nat) then Recv_Data (take n [0x00, 0x01, 0x03, 0x05 :: byte])
                                  else Recv_Data []),
             sock_recvs = 0, sock_log = []\<rparr>"
  let ?q = "watchman_send_query True (\<lambda>i. 0) ?w ?s"
  have lg: "sock_log (snd ?q) = [Send 5 5, Recv 3 3, Recv 4 4, Recv 9 0]"
    by (simp add: watchman_send_query_def watchman_sniff_header_def watchman_peek_pdu_size_def
        watchman_read_pdu_def send_def recv_def Let_def WATCHMAN_SNIFF_BUFFER_SIZE_def
        SIZEOF_BINARY_MARKER_def WATCHMAN_DEFAULT_STORAGE_def SSIZE_MAX_def load_byte_def
        load_bytes_def sizes_def xmalloc_def watchman_read_int_def watchman_read_int_case_def)
  have sh: "\<exists>e \<in> set (sock_log (snd ?q)). short_io e" by (simp add: lg)
  have "?q = (fst ?q, snd ?q)" by simp
  then have "fst ?q = Inr None"
    using watchman_send_query_short_io [of True "\<lambda>i. 0" ?w ?s "fst ?q" "snd ?q"] sh by simp
  then show ?thesis using lg by simp
qed

lemmas send_query_defs =
  watchman_send_query_def watchman_sniff_header_def watchman_peek_pdu_size_def
  watchman_read_pdu_def send_def recv_def WATCHMAN_SNIFF_BUFFER_SIZE_def
  SIZEOF_BINARY_MARKER_def WATCHMAN_DEFAULT_STORAGE_def SSIZE_MAX_def sizes_def xmalloc_def

lemmas write_defs =
  watchman_init_def watchman_append_def and_then_def watchman_write_object_def
  watchman_write_array_def watchman_write_string_def watchman_write_int_def
  WATCHMAN_HEADER_def WATCHMAN_DEFAULT_STORAGE_def c_str_def bytes_of_def strlen_def

lemma watch_project_request_example:
  "\<exists>w. watchman_watch_project_request [0x2f, 0x72] = Inr w
       \<and> req_length w = 36
       \<and> wire w = WATCHMAN_HEADER @ [0x00, 0x03, 0x02,
                     0x02, 0x03, 0x0e,
                     0x77, 0x61, 0x74, 0x63, 0x68, 0x2d, 0x70, 0x72, 0x6f, 0x6a, 0x65, 0x63, 0x74, 0x00,
                     0x02, 0x03, 0x02, 0x2f, 0x72]"
  by (simp add: watchman_watch_project_request_def write_defs wire_def)

text \<open>
  Claim C2, at a reply of five bytes: the frame header \<open>00 01 03 01\<close> (marker, 8-bit
  size field, declared payload length 1) and the payload \<open>0a\<close>. All three receive
  steps succeed, and the last one reads 5 bytes into the buffer. The response comes
  back with the read position 4, right after the header, and the end position 9: not
  \<open>4 + 1\<close>, and four bytes beyond what was read.
\<close>

theorem watchman_send_query_end_cursor:
  "\<exists>w. watchman_watch_project_request [0x2f, 0x72] = Inr w
       \<and> watchman_send_query ndebug junk w (reply_socket [0x00, 0x01, 0x03, 0x01, 0x0a])
         = (Inr (Some \<lparr>rsp_capacity = 5,
                       rsp_payload = [0x00, 0x01, 0x03, 0x01, 0x0a] @ drop 5 (xmalloc junk 4096),
                       rsp_ptr = 4, rsp_end = 9\<rparr>),
            \<lparr>sock_send = (\<lambda>buf n. int n),
             sock_recv = (\<lambda>k n. Recv_Data (take n [0x00, 0x01, 0x03, 0x01, 0x0a])),
             sock_recvs = 3,
             sock_log = [Send 36 36, Recv 3 3, Recv 4 4, Recv 5 5]\<rparr>)"
proof -
  obtain w where w: "watchman_watch_project_request [0x2f, 0x72] = Inr w"
    and l: "req_length w = 36"
    using watch_project_request_example by blast
  have "watchman_send_query ndebug junk w (reply_socket [0x00, 0x01, 0x03, 0x01, 0x0a])
         = (Inr (Some \<lparr>rsp_capacity = 5,
                       rsp_payload = [0x00, 0x01, 0x03, 0x01, 0x0a] @ drop 5 (xmalloc junk 4096),
                       rsp_ptr = 4, rsp_end = 9\<rparr>),
            \<lparr>sock_send = (\<lambda>buf n. int n),
             sock_recv = (\<lambda>k n. Recv_Data (take n [0x00, 0x01, 0x03, 0x01, 0x0a])),
             sock_recvs = 3,
             sock_log = [Send 36 36, Recv 3 3, Recv 4 4, Recv 5 5]\<rparr>)"
  proof -
    have five: "Suc (Suc (Suc (Suc (Suc 0)))) = 5" by simp
    show ?thesis
      by (simp add: send_query_defs reply_socket_def l Let_def load_byte_def load_bytes_def
          watchman_read_int_def watchman_read_int_case_def five)
  qed
  then show ?thesis using w by blast
qed

subsection \<open>The bytes of a request\<close>

text \<open>
  The wire form of the three kinds of value that the request builders write: an
  integer as \<^verbatim>\<open>watchman_write_int\<close> encodes it; a string as its marker, its length and
  its bytes; an array or object header as its marker and its count.
\<close>

definition wire_string :: "byte list \<Rightarrow> byte list" where
  "wire_string s = WATCHMAN_STRING_MARKER # int_bytes (of_nat (length s)) @ s"

definition wire_array :: "nat \<Rightarrow> byte list" where
  "wire_array n = WATCHMAN_ARRAY_MARKER # int_bytes (of_nat n)"

definition wire_object :: "nat \<Rightarrow> byte list" where
  "wire_object n = WATCHMAN_OBJECT_MARKER # int_bytes (of_nat n)"

text \<open>
  The two messages, with every string spelt out: the names that the source writes as
  literals are followed by a NUL byte, \<open>root\<close> and \<open>relative_root\<close> are cut at their
  \<^verbatim>\<open>strlen\<close>.
\<close>

definition query_message :: "byte list \<Rightarrow> byte list option \<Rightarrow> byte list" where
  "query_message root relative_root =
     wire_array 3
     @ wire_string (bytes_of ''query'' @ [0])
     @ wire_string (take (strlen root) root)
     @ wire_object (if relative_root \<noteq> None then 3 else 2)
     @ wire_string (bytes_of ''expression'' @ [0])
     @ wire_array 2
     @ wire_string (bytes_of ''type'' @ [0])
     @ wire_string (bytes_of ''f'' @ [0])
     @ wire_string (bytes_of ''fields'' @ [0])
     @ wire_array 1
     @ wire_string (bytes_of ''name'' @ [0])
     @ (case relative_root of
          None \<Rightarrow> []
        | Some rr \<Rightarrow>
            wire_string (bytes_of ''relative_root'' @ [0]) @ wire_string (take (strlen rr) rr))"

definition watch_project_message :: "byte list \<Rightarrow> byte list" where
  "watch_project_message root =
     wire_array 2
     @ wire_string (bytes_of ''watch-project'' @ [0])
     @ wire_string (take (strlen root) root)"

text \<open>The request after \<open>bs\<close> has been placed behind the bytes in use.\<close>

definition req_extend :: "watchman_request_t \<Rightarrow> byte list \<Rightarrow> watchman_request_t" where
  "req_extend w bs =
     w\<lparr>req_payload := take (req_length w) (req_payload w) @ bs
                         @ drop (req_length w + length bs) (req_payload w),
       req_length := req_length w + length bs\<rparr>"

definition emits :: "(watchman_request_t \<Rightarrow> failure + watchman_request_t) \<Rightarrow> byte list \<Rightarrow> bool" where
  "emits f bs \<longleftrightarrow>
     (\<forall>w. req_wf w \<and> req_length w + length bs \<le> req_capacity w \<longrightarrow> f w = Inr (req_extend w bs))"

lemma req_extend_facts:
  assumes "req_wf w" and "req_length w + length bs \<le> req_capacity w"
  shows "req_wf (req_extend w bs)" and "wire (req_extend w bs) = wire w @ bs"
    and "req_capacity (req_extend w bs) = req_capacity w"
    and "req_length (req_extend w bs) = req_length w + length bs"
  using assms by (simp_all add: req_extend_def req_wf_def wire_def)

lemma req_extend_append:
  assumes "req_wf w" and "req_length w + length a + length b \<le> req_capacity w"
  shows "req_extend (req_extend w a) b = req_extend w (a @ b)"
  using assms by (simp add: req_extend_def req_wf_def ac_simps)

lemma emits_append: "n \<le> length data \<Longrightarrow> emits (\<lambda>w. watchman_append w data n) (take n data)"
  by (simp add: emits_def watchman_append_def req_extend_def)

lemma emits_seq:
  assumes "emits f a" and "emits g b"
  shows "emits (\<lambda>w. and_then (f w) g) (a @ b)"
  unfolding emits_def
proof (intro allI impI)
  fix w assume h: "req_wf w \<and> req_length w + length (a @ b) \<le> req_capacity w"
  then have fa: "f w = Inr (req_extend w a)" using assms(1) by (simp add: emits_def)
  have wf1: "req_wf (req_extend w a)"
    and l1: "req_length (req_extend w a) + length b \<le> req_capacity (req_extend w a)"
    using h by (simp_all add: req_extend_facts)
  then have "g (req_extend w a) = Inr (req_extend (req_extend w a) b)"
    using assms(2) by (simp add: emits_def)
  then show "and_then (f w) g = Inr (req_extend w (a @ b))"
    using fa h by (simp add: and_then_def req_extend_append)
qed

lemma emits_write_int: "emits (\<lambda>w. watchman_write_int w v) (int_bytes v)"
  using emits_append [of "length (int_bytes v)" "int_bytes v"]
  by (simp add: watchman_write_int_append)

lemma watchman_write_string_seq:
  "watchman_write_string w s n =
     and_then (and_then (watchman_append w [WATCHMAN_STRING_MARKER] 1)
                (\<lambda>w1. watchman_write_int w1 (of_nat n)))
       (\<lambda>w2. watchman_append w2 s n)"
  by (simp add: watchman_write_string_def and_then_def split: sum.splits)

lemma emits_write_string:
  assumes "n \<le> length s"
  shows "emits (\<lambda>w. watchman_write_string w s n) (wire_string (take n s))"
proof -
  have a: "emits (\<lambda>w. watchman_append w [WATCHMAN_STRING_MARKER] 1) [WATCHMAN_STRING_MARKER]"
    using emits_append [of 1 "[WATCHMAN_STRING_MARKER]"] by simp
  have b: "emits (\<lambda>w1. watchman_write_int w1 (of_nat n)) (int_bytes (of_nat n))"
    by (rule emits_write_int)
  have c: "emits (\<lambda>w2. watchman_append w2 s n) (take n s)"
    using assms by (rule emits_append)
  have "emits (\<lambda>w. watchman_write_string w s n)
          (([WATCHMAN_STRING_MARKER] @ int_bytes (of_nat n)) @ take n s)"
    unfolding watchman_write_string_seq by (rule emits_seq [OF emits_seq [OF a b] c])
  moreover have "length (take n s) = n" using assms by simp
  ultimately show ?thesis by (simp only: wire_string_def append_Cons append_Nil append_assoc)
qed

lemma emits_write_array: "emits (\<lambda>w. watchman_write_array w n) (wire_array n)"
proof -
  have a: "emits (\<lambda>w. watchman_append w [WATCHMAN_ARRAY_MARKER] 1) [WATCHMAN_ARRAY_MARKER]"
    using emits_append [of 1 "[WATCHMAN_ARRAY_MARKER]"] by simp
  have s: "watchman_write_array w n =
             and_then (watchman_append w [WATCHMAN_ARRAY_MARKER] 1)
               (\<lambda>w1. watchman_write_int w1 (of_nat n))" for w
    by (simp add: watchman_write_array_def and_then_def)
  have "emits (\<lambda>w. watchman_write_array w n) ([WATCHMAN_ARRAY_MARKER] @ int_bytes (of_nat n))"
    unfolding s by (rule emits_seq [OF a emits_write_int])
  then show ?thesis by (simp add: wire_array_def)
qed

lemma emits_write_object: "emits (\<lambda>w. watchman_write_object w n) (wire_object n)"
proof -
  have a: "emits (\<lambda>w. watchman_append w [WATCHMAN_OBJECT_MARKER] 1) [WATCHMAN_OBJECT_MARKER]"
    using emits_append [of 1 "[WATCHMAN_OBJECT_MARKER]"] by simp
  have s: "watchman_write_object w n =
             and_then (watchman_append w [WATCHMAN_OBJECT_MARKER] 1)
               (\<lambda>w1. watchman_write_int w1 (of_nat n))" for w
    by (simp add: watchman_write_object_def and_then_def)
  have "emits (\<lambda>w. watchman_write_object w n) ([WATCHMAN_OBJECT_MARKER] @ int_bytes (of_nat n))"
    unfolding s by (rule emits_seq [OF a emits_write_int])
  then show ?thesis by (simp add: wire_object_def)
qed

lemma req_extend_nil: "req_wf w \<Longrightarrow> req_extend w [] = w"
  by (simp add: req_extend_def req_wf_def)

lemma run_writes_emits:
  "list_all2 emits fs bss \<Longrightarrow> req_wf w \<Longrightarrow> req_length w + length (concat bss) \<le> req_capacity w
     \<Longrightarrow> run_writes (Inr w) fs = Inr (req_extend w (concat bss))"
proof (induction fs bss arbitrary: w rule: list_all2_induct)
  case Nil
  then show ?case by (simp add: req_extend_nil)
next
  case (Cons f fs bs bss)
  have fw: "f w = Inr (req_extend w bs)"
    using Cons.hyps(1) Cons.prems by (simp add: emits_def)
  have wf1: "req_wf (req_extend w bs)"
    and l1: "req_length (req_extend w bs) + length (concat bss) \<le> req_capacity (req_extend w bs)"
    using Cons.prems by (simp_all add: req_extend_facts)
  have "run_writes (Inr w) (f # fs) = run_writes (Inr (req_extend w bs)) fs"
    by (simp add: and_then_def fw)
  also have "\<dots> = Inr (req_extend (req_extend w bs) (concat bss))"
    using wf1 l1 by (rule Cons.IH)
  also have "req_extend (req_extend w bs) (concat bss) = req_extend w (bs @ concat bss)"
    using Cons.prems by (simp add: req_extend_append)
  finally show ?case by simp
qed

lemma watchman_init_eq:
  "\<exists>w. watchman_init = Inr w \<and> req_wf w \<and> wire w = WATCHMAN_HEADER
       \<and> req_capacity w = WATCHMAN_DEFAULT_STORAGE \<and> req_length w = length WATCHMAN_HEADER"
  by (simp add: watchman_init_def watchman_append_def req_wf_def wire_def
      WATCHMAN_HEADER_def WATCHMAN_DEFAULT_STORAGE_def)

lemma run_writes_from_init:
  assumes em: "list_all2 emits fs bss"
    and fit: "length (WATCHMAN_HEADER @ concat bss) \<le> WATCHMAN_DEFAULT_STORAGE"
  shows "\<exists>w. run_writes watchman_init fs = Inr w \<and> wire w = WATCHMAN_HEADER @ concat bss"
proof -
  obtain w0 where i: "watchman_init = Inr w0" and wf: "req_wf w0" and wi: "wire w0 = WATCHMAN_HEADER"
    and cap: "req_capacity w0 = WATCHMAN_DEFAULT_STORAGE"
    and len: "req_length w0 = length WATCHMAN_HEADER"
    using watchman_init_eq by blast
  have l: "req_length w0 + length (concat bss) \<le> req_capacity w0"
    using fit cap len by simp
  have "run_writes watchman_init fs = Inr (req_extend w0 (concat bss))"
    unfolding i using em wf l by (rule run_writes_emits)
  moreover have "wire (req_extend w0 (concat bss)) = WATCHMAN_HEADER @ concat bss"
    using wf l wi by (simp add: req_extend_facts)
  ultimately show ?thesis by blast
qed

lemma strlen_le: "strlen s \<le> length s"
  by (simp add: strlen_def length_takeWhile_le)

lemma emits_literal:
  "emits (\<lambda>w. watchman_write_string w (c_str lit) (length (c_str lit)))
     (wire_string (bytes_of lit @ [0]))"
  using emits_write_string [of "length (c_str lit)" "c_str lit"] by (simp add: c_str_def)

lemma emits_c_string:
  "emits (\<lambda>w. watchman_write_string w s (strlen s)) (wire_string (take (strlen s) s))"
  by (rule emits_write_string) (rule strlen_le)

text \<open>
  Claim C9. When the message fits into the storage that \<^verbatim>\<open>watchman_init\<close> allocates,
  the request that \<^verbatim>\<open>commandt_watchman_query\<close> builds is the header followed by
  \<open>query_message\<close>, and the one of \<^verbatim>\<open>commandt_watchman_watch_project\<close> is the header
  followed by \<open>watch_project_message\<close>: each literal name travels with its trailing NUL
  and a length of \<^verbatim>\<open>strlen + 1\<close>, while \<open>root\<close> and \<open>relative_root\<close> travel as their
  \<^verbatim>\<open>strlen\<close> bytes, without a terminator.
\<close>

theorem request_literals_carry_nul:
  "(length (WATCHMAN_HEADER @ query_message root relative_root) \<le> WATCHMAN_DEFAULT_STORAGE \<longrightarrow>
      (\<exists>w. watchman_query_request root relative_root = Inr w
          \<and> wire w = WATCHMAN_HEADER @ query_message root relative_root))
   \<and> (length (WATCHMAN_HEADER @ watch_project_message root) \<le> WATCHMAN_DEFAULT_STORAGE \<longrightarrow>
      (\<exists>w. watchman_watch_project_request root = Inr w
          \<and> wire w = WATCHMAN_HEADER @ watch_project_message root))"
proof (intro conjI impI)
  assume fit: "length (WATCHMAN_HEADER @ query_message root relative_root) \<le> WATCHMAN_DEFAULT_STORAGE"
  show "\<exists>w. watchman_query_request root relative_root = Inr w
          \<and> wire w = WATCHMAN_HEADER @ query_message root relative_root"
  proof (cases relative_root)
    case None
    have "\<exists>w. run_writes watchman_init
            [\<lambda>w. watchman_write_array w 3,
             \<lambda>w. watchman_write_string w (c_str ''query'') (length (c_str ''query'')),
             \<lambda>w. watchman_write_string w root (strlen root),
             \<lambda>w. watchman_write_object w 2,
             \<lambda>w. watchman_write_string w (c_str ''expression'') (length (c_str ''expression'')),
             \<lambda>w. watchman_write_array w 2,
             \<lambda>w. watchman_write_string w (c_str ''type'') (length (c_str ''type'')),
             \<lambda>w. watchman_write_string w (c_str ''f'') (length (c_str ''f'')),
             \<lambda>w. watchman_write_string w (c_str ''fields'') (length (c_str ''fields'')),
             \<lambda>w. watchman_write_array w 1,
             \<lambda>w. watchman_write_string w (c_str ''name'') (length (c_str ''name''))] = Inr w
          \<and> wire w = WATCHMAN_HEADER @ concat
            [wire_array 3, wire_string (bytes_of ''query'' @ [0]),
             wire_string (take (strlen root) root), wire_object 2,
             wire_string (bytes_of ''expression'' @ [0]), wire_array 2,
             wire_string (bytes_of ''type'' @ [0]), wire_string (bytes_of ''f'' @ [0]),
             wire_string (bytes_of ''fields'' @ [0]), wire_array 1,
             wire_string (bytes_of ''name'' @ [0])]"
    proof (rule run_writes_from_init)
      show "list_all2 emits
            [\<lambda>w. watchman_write_array w 3,
             \<lambda>w. watchman_write_string w (c_str ''query'') (length (c_str ''query'')),
             \<lambda>w. watchman_write_string w root (strlen root),
             \<lambda>w. watchman_write_object w 2,
             \<lambda>w. watchman_write_string w (c_str ''expression'') (length (c_str ''expression'')),
             \<lambda>w. watchman_write_array w 2,
             \<lambda>w. watchman_write_string w (c_str ''type'') (length (c_str ''type'')),
             \<lambda>w. watchman_write_string w (c_str ''f'') (length (c_str ''f'')),
             \<lambda>w. watchman_write_string w (c_str ''fields'') (length (c_str ''fields'')),
             \<lambda>w. watchman_write_array w 1,
             \<lambda>w. watchman_write_string w (c_str ''name'') (length (c_str ''name''))]
            [wire_array 3, wire_string (bytes_of ''query'' @ [0]),
             wire_string (take (strlen root) root), wire_object 2,
             wire_string (bytes_of ''expression'' @ [0]), wire_array 2,
             wire_string (bytes_of ''type'' @ [0]), wire_string (bytes_of ''f'' @ [0]),
             wire_string (bytes_of ''fields'' @ [0]), wire_array 1,
             wire_string (bytes_of ''name'' @ [0])]"
        by (intro list_all2_Cons [THEN iffD2] conjI emits_write_array emits_write_object
            emits_literal emits_c_string) simp
      show "length (WATCHMAN_HEADER @ concat
            [wire_array 3, wire_string (bytes_of ''query'' @ [0]),
             wire_string (take (strlen root) root), wire_object 2,
             wire_string (bytes_of ''expression'' @ [0]), wire_array 2,
             wire_string (bytes_of ''type'' @ [0]), wire_string (bytes_of ''f'' @ [0]),
             wire_string (bytes_of ''fields'' @ [0]), wire_array 1,
             wire_string (bytes_of ''name'' @ [0])]) \<le> WATCHMAN_DEFAULT_STORAGE"
        using fit None by (simp add: query_message_def)
    qed
    then show ?thesis using None by (simp add: watchman_query_request_def query_message_def)
  next
    case (Some rr)
    have "\<exists>w. run_writes watchman_init
            [\<lambda>w. watchman_write_array w 3,
             \<lambda>w. watchman_write_string w (c_str ''query'') (length (c_str ''query'')),
             \<lambda>w. watchman_write_string w root (strlen root),
             \<lambda>w. watchman_write_object w 3,
             \<lambda>w. watchman_write_string w (c_str ''expression'') (length (c_str ''expression'')),
             \<lambda>w. watchman_write_array w 2,
             \<lambda>w. watchman_write_string w (c_str ''type'') (length (c_str ''type'')),
             \<lambda>w. watchman_write_string w (c_str ''f'') (length (c_str ''f'')),
             \<lambda>w. watchman_write_string w (c_str ''fields'') (length (c_str ''fields'')),
             \<lambda>w. watchman_write_array w 1,
             \<lambda>w. watchman_write_string w (c_str ''name'') (length (c_str ''name'')),
             \<lambda>w. watchman_write_string w (c_str ''relative_root'') (length (c_str ''relative_root'')),
             \<lambda>w. watchman_write_string w rr (strlen rr)] = Inr w
          \<and> wire w = WATCHMAN_HEADER @ concat
            [wire_array 3, wire_string (bytes_of ''query'' @ [0]),
             wire_string (take (strlen root) root), wire_object 3,
             wire_string (bytes_of ''expression'' @ [0]), wire_array 2,
             wire_string (bytes_of ''type'' @ [0]), wire_string (bytes_of ''f'' @ [0]),
             wire_string (bytes_of ''fields'' @ [0]), wire_array 1,
             wire_string (bytes_of ''name'' @ [0]),
             wire_string (bytes_of ''relative_root'' @ [0]),
             wire_string (take (strlen rr) rr)]"
    proof (rule run_writes_from_init)
      show "list_all2 emits
            [\<lambda>w. watchman_write_array w 3,
             \<lambda>w. watchman_write_string w (c_str ''query'') (length (c_str ''query'')),
             \<lambda>w. watchman_write_string w root (strlen root),
             \<lambda>w. watchman_write_object w 3,
             \<lambda>w. watchman_write_string w (c_str ''expression'') (length (c_str ''expression'')),
             \<lambda>w. watchman_write_array w 2,
             \<lambda>w. watchman_write_string w (c_str ''type'') (length (c_str ''type'')),
             \<lambda>w. watchman_write_string w (c_str ''f'') (length (c_str ''f'')),
             \<lambda>w. watchman_write_string w (c_str ''fields'') (length (c_str ''fields'')),
             \<lambda>w. watchman_write_array w 1,
             \<lambda>w. watchman_write_string w (c_str ''name'') (length (c_str ''name'')),
             \<lambda>w. watchman_write_string w (c_str ''relative_root'') (length (c_str ''relative_root'')),
             \<lambda>w. watchman_write_string w rr (strlen rr)]
            [wire_array 3, wire_string (bytes_of ''query'' @ [0]),
             wire_string (take (strlen root) root), wire_object 3,
             wire_string (bytes_of ''expression'' @ [0]), wire_array 2,
             wire_string (bytes_of ''type'' @ [0]), wire_string (bytes_of ''f'' @ [0]),
             wire_string (bytes_of ''fields'' @ [0]), wire_array 1,
             wire_string (bytes_of ''name'' @ [0]),
             wire_string (bytes_of ''relative_root'' @ [0]),
             wire_string (take (strlen rr) rr)]"
        by (intro list_all2_Cons [THEN iffD2] conjI emits_write_array emits_write_object
            emits_literal emits_c_string) simp
      show "length (WATCHMAN_HEADER @ concat
            [wire_array 3, wire_string (bytes_of ''query'' @ [0]),
             wire_string (take (strlen root) root), wire_object 3,
             wire_string (bytes_of ''expression'' @ [0]), wire_array 2,
             wire_string (bytes_of ''type'' @ [0]), wire_string (bytes_of ''f'' @ [0]),
             wire_string (bytes_of ''fields'' @ [0]), wire_array 1,
             wire_string (bytes_of ''name'' @ [0]),
             wire_string (bytes_of ''relative_root'' @ [0]),
             wire_string (take (strlen rr) rr)]) \<le> WATCHMAN_DEFAULT_STORAGE"
        using fit Some by (simp add: query_message_def)
    qed
    then show ?thesis using Some by (simp add: watchman_query_request_def query_message_def)
  qed
next
  assume fit: "length (WATCHMAN_HEADER @ watch_project_message root) \<le> WATCHMAN_DEFAULT_STORAGE"
  have "\<exists>w. run_writes watchman_init
          [\<lambda>w. watchman_write_array w 2,
           \<lambda>w. watchman_write_string w (c_str ''watch-project'') (length (c_str ''watch-project'')),
           \<lambda>w. watchman_write_string w root (strlen root)] = Inr w
        \<and> wire w = WATCHMAN_HEADER @ concat
          [wire_array 2, wire_string (bytes_of ''watch-project'' @ [0]),
           wire_string (take (strlen root) root)]"
  proof (rule run_writes_from_init)
    show "list_all2 emits
          [\<lambda>w. watchman_write_array w 2,
           \<lambda>w. watchman_write_string w (c_str ''watch-project'') (length (c_str ''watch-project'')),
           \<lambda>w. watchman_write_string w root (strlen root)]
          [wire_array 2, wire_string (bytes_of ''watch-project'' @ [0]),
           wire_string (take (strlen root) root)]"
      by (intro list_all2_Cons [THEN iffD2] conjI emits_write_array emits_write_object
          emits_literal emits_c_string) simp
    show "length (WATCHMAN_HEADER @ concat
          [wire_array 2, wire_string (bytes_of ''watch-project'' @ [0]),
           wire_string (take (strlen root) root)]) \<le> WATCHMAN_DEFAULT_STORAGE"
      using fit by (simp add: watch_project_message_def)
  qed
  then show "\<exists>w. watchman_watch_project_request root = Inr w
          \<and> wire w = WATCHMAN_HEADER @ watch_project_message root"
    by (simp add: watchman_watch_project_request_def watch_project_message_def)
qed


theorem request_literals_carry_nul_witness:
  "length (WATCHMAN_HEADER @ query_message [0x2f, 0x72] (Some [0x73])) \<le> WATCHMAN_DEFAULT_STORAGE
   \<and> (\<exists>w. watchman_query_request [0x2f, 0x72] (Some [0x73]) = Inr w
          \<and> wire w = WATCHMAN_HEADER @
           [0x00, 0x03, 0x03, 0x02, 0x03, 0x06, 0x71, 0x75, 0x65, 0x72, 0x79, 0x00,
            0x02, 0x03, 0x02, 0x2f, 0x72, 0x01, 0x03, 0x03, 0x02, 0x03, 0x0b, 0x65,
            0x78, 0x70, 0x72, 0x65, 0x73, 0x73, 0x69, 0x6f, 0x6e, 0x00, 0x00, 0x03,
            0x02, 0x02, 0x03, 0x05, 0x74, 0x79, 0x70, 0x65, 0x00, 0x02, 0x03, 0x02,
            0x66, 0x00, 0x02, 0x03, 0x07, 0x66, 0x69, 0x65, 0x6c, 0x64, 0x73, 0x00,
            0x00, 0x03, 0x01, 0x02, 0x03, 0x05, 0x6e, 0x61, 0x6d, 0x65, 0x00, 0x02,
            0x03, 0x0e, 0x72, 0x65, 0x6c, 0x61, 0x74, 0x69, 0x76, 0x65, 0x5f, 0x72,
            0x6f, 0x6f, 0x74, 0x00, 0x02, 0x03, 0x01, 0x73])
   \<and> length (WATCHMAN_HEADER @ watch_project_message [0x2f, 0x72]) \<le> WATCHMAN_DEFAULT_STORAGE
   \<and> (\<exists>w. watchman_watch_project_request [0x2f, 0x72] = Inr w
          \<and> wire w = WATCHMAN_HEADER @
           [0x00, 0x03, 0x02, 0x02, 0x03, 0x0e, 0x77, 0x61, 0x74, 0x63, 0x68, 0x2d,
            0x70, 0x72, 0x6f, 0x6a, 0x65, 0x63, 0x74, 0x00, 0x02, 0x03, 0x02, 0x2f,
            0x72])"
  using request_literals_carry_nul [of "[0x2f, 0x72]" "Some [0x73]"]
  by (simp add: query_message_def watch_project_message_def wire_string_def wire_array_def
      wire_object_def int_bytes_def bytes_of_def strlen_def WATCHMAN_HEADER_def
      WATCHMAN_DEFAULT_STORAGE_def)

lemma query_request_example:
  "\<exists>w. watchman_query_request [0x2f, 0x72] None = Inr w \<and> req_length w = 82"
  by (simp add: watchman_query_request_def write_defs)

lemma send_query_returns_files_reply:
  assumes "req_length w = 82"
  shows "\<exists>r. fst (watchman_send_query ndebug junk w (reply_socket
           [0x00, 0x01, 0x03, 0x12, 0x01, 0x03, 0x01, 0x02, 0x03, 0x05, 0x66, 0x69,
            0x6c, 0x65, 0x73, 0x00, 0x03, 0x01, 0x02, 0x03, 0x01, 0x61])) = Inr (Some r)"
  by (simp add: send_query_defs reply_socket_def assms Let_def load_byte_def load_bytes_def
      watchman_read_int_def watchman_read_int_case_def)

lemma send_query_returns_error_reply:
  assumes "req_length w = 82"
  shows "\<exists>r. fst (watchman_send_query ndebug junk w (reply_socket
           [0x00, 0x01, 0x03, 0x0f, 0x01, 0x03, 0x01, 0x02, 0x03, 0x05, 0x65, 0x72,
            0x72, 0x6f, 0x72, 0x02, 0x03, 0x01, 0x78])) = Inr (Some r)"
  by (simp add: send_query_defs reply_socket_def assms Let_def load_byte_def load_bytes_def
      watchman_read_int_def watchman_read_int_case_def)

text \<open>
  Claim C1, for the root \<open>"/r"\<close> without a relative root, at two replies of the
  daemon: the object \<open>{"files": ["a"]}\<close> and the object \<open>{"error": "x"}\<close>, each in a
  well-formed frame. In both cases \<^verbatim>\<open>commandt_watchman_query\<close> returns the block that
  \<^verbatim>\<open>xmalloc\<close> gave it, as it was: nothing of the response is decoded into the result,
  and the error reply is not turned into a failure.
\<close>

theorem commandt_watchman_query_result_unpopulated:
  "commandt_watchman_query ndebug junk fresh [0x2f, 0x72] None (reply_socket
     [0x00, 0x01, 0x03, 0x12, 0x01, 0x03, 0x01, 0x02, 0x03, 0x05, 0x66, 0x69,
      0x6c, 0x65, 0x73, 0x00, 0x03, 0x01, 0x02, 0x03, 0x01, 0x61]) = Inr fresh
   \<and> commandt_watchman_query ndebug junk fresh [0x2f, 0x72] None (reply_socket
     [0x00, 0x01, 0x03, 0x0f, 0x01, 0x03, 0x01, 0x02, 0x03, 0x05, 0x65, 0x72,
      0x72, 0x6f, 0x72, 0x02, 0x03, 0x01, 0x78]) = Inr fresh"
proof -
  obtain w where w: "watchman_query_request [0x2f, 0x72] None = Inr w" and l: "req_length w = 82"
    using query_request_example by blast
  show ?thesis
    using send_query_returns_files_reply [OF l, of ndebug junk]
      send_query_returns_error_reply [OF l, of ndebug junk]
    by (auto simp: commandt_watchman_query_def w)
qed

section \<open>The bounded priority queue: the order of extraction\<close>

text \<open>
  \<open>before cmp a b\<close>: the comparator puts \<open>a\<close> above \<open>b\<close> (\<^verbatim>\<open>heap_property\<close> on their
  positions). A comparator is usable when this relation is asymmetric and its
  complement is transitive, as for \<open>a < b\<close> on any total preorder.
\<close>

definition before :: "('a \<Rightarrow> 'a \<Rightarrow> int) \<Rightarrow> 'a \<Rightarrow> 'a \<Rightarrow> bool" where
  "before cmp a b \<longleftrightarrow> 0 < cmp a b"

definition comparator_ok :: "('a \<Rightarrow> 'a \<Rightarrow> int) \<Rightarrow> bool" where
  "comparator_ok cmp \<longleftrightarrow>
     (\<forall>a b. before cmp a b \<longrightarrow> \<not> before cmp b a)
     \<and> (\<forall>a b c. \<not> before cmp a b \<longrightarrow> \<not> before cmp b c \<longrightarrow> \<not> before cmp a c)"

text \<open>\<open>a\<close> may stand above \<open>b\<close>: \<open>b\<close> is not before \<open>a\<close>.\<close>

definition above_ok :: "('a \<Rightarrow> 'a \<Rightarrow> int) \<Rightarrow> 'a \<Rightarrow> 'a \<Rightarrow> bool" where
  "above_ok cmp a b \<longleftrightarrow> \<not> before cmp b a"

lemma comparator_ok_asym:
  "comparator_ok cmp \<Longrightarrow> before cmp a b \<Longrightarrow> \<not> before cmp b a"
  unfolding comparator_ok_def by (elim conjE allE [of _ a] allE [of _ b]) simp

lemma comparator_ok_negtrans:
  "comparator_ok cmp \<Longrightarrow> \<not> before cmp a b \<Longrightarrow> \<not> before cmp b c \<Longrightarrow> \<not> before cmp a c"
proof -
  assume ok: "comparator_ok cmp" and ab: "\<not> before cmp a b" and bc: "\<not> before cmp b c"
  from ok have "\<forall>a b c. \<not> before cmp a b \<longrightarrow> \<not> before cmp b c \<longrightarrow> \<not> before cmp a c"
    unfolding comparator_ok_def by (rule conjunct2)
  then have "\<not> before cmp a b \<longrightarrow> \<not> before cmp b c \<longrightarrow> \<not> before cmp a c"
    by (elim allE)
  then show ?thesis using ab bc by simp
qed

lemma above_ok_refl: "comparator_ok cmp \<Longrightarrow> above_ok cmp a a"
  using comparator_ok_asym [of cmp a a] by (auto simp: above_ok_def)

lemma above_ok_trans:
  "comparator_ok cmp \<Longrightarrow> above_ok cmp a b \<Longrightarrow> above_ok cmp b c \<Longrightarrow> above_ok cmp a c"
  using comparator_ok_negtrans [of cmp c b a] by (auto simp: above_ok_def)

lemma before_above_ok: "comparator_ok cmp \<Longrightarrow> before cmp a b \<Longrightarrow> above_ok cmp a b"
  using comparator_ok_asym [of cmp a b] by (auto simp: above_ok_def)

lemma not_before_above_ok: "\<not> before cmp a b \<Longrightarrow> above_ok cmp b a"
  by (simp add: above_ok_def)

text \<open>The index of the parent, without the wrap-around of \<^verbatim>\<open>unsigned\<close> arithmetic.\<close>

definition parent :: "nat \<Rightarrow> nat" where
  "parent i = (i - 1) div 2"

lemma parent_less: "0 < i \<Longrightarrow> parent i < i"
  unfolding parent_def by arith

lemma parent_eq_iff: "0 < c \<Longrightarrow> parent c = i \<longleftrightarrow> c = 2 * i + 1 \<or> c = 2 * i + 2"
  unfolding parent_def by arith

text \<open>The heap invariant on the first \<open>count\<close> entries, and what a heap holds.\<close>

definition heap_ok :: "'a heap_t \<Rightarrow> bool" where
  "heap_ok h \<longleftrightarrow>
     (\<forall>i. 0 < i \<and> i < count h \<longrightarrow>
        above_ok (comparator h) (entries h ! parent i) (entries h ! i))"

definition heap_wf :: "'a heap_t \<Rightarrow> bool" where
  "heap_wf h \<longleftrightarrow> count h \<le> capacity h \<and> length (entries h) = capacity h \<and> capacity h < 2 ^ 31"

definition heap_mset :: "'a heap_t \<Rightarrow> 'a multiset" where
  "heap_mset h = mset (take (count h) (entries h))"

lemma HEAP_PARENT_no_wrap:
  assumes "0 < idx" and "idx < 2 ^ 32"
  shows "HEAP_PARENT idx = parent idx"
proof -
  have "idx + UINT_MOD - 1 = (idx - 1) + UINT_MOD" using assms(1) by simp
  then have "(idx + UINT_MOD - 1) mod UINT_MOD = (idx - 1) mod UINT_MOD" by simp
  also have "\<dots> = idx - 1" using assms(2) by (simp add: UINT_MOD_def)
  finally show ?thesis by (simp add: HEAP_PARENT_def parent_def)
qed

lemma heap_property_before:
  "heap_property h i j \<longleftrightarrow> before (comparator h) (entries h ! i) (entries h ! j)"
  by (simp add: heap_property_def heap_compare_def before_def)

lemma heap_swap_nth:
  "a < length (entries h) \<Longrightarrow> b < length (entries h) \<Longrightarrow>
   entries (heap_swap h a b) ! i =
     (if i = b then entries h ! a else if i = a then entries h ! b else entries h ! i)"
  by (auto simp: heap_swap_def Let_def nth_list_update)

lemma heap_swap_mset:
  assumes "a < count h" and "b < count h" and "count h \<le> length (entries h)"
  shows "heap_mset (heap_swap h a b) = heap_mset h"
proof -
  let ?t = "take (count h) (entries h)"
  have la: "a < length ?t" and lb: "b < length ?t" using assms by simp_all
  have "mset (?t[a := ?t ! b, b := ?t ! a]) = mset ?t"
    using lb la by (rule mset_swap)
  moreover have "?t ! a = entries h ! a" and "?t ! b = entries h ! b"
    using assms by simp_all
  ultimately have "mset (?t[a := entries h ! b, b := entries h ! a]) = mset ?t"
    by simp
  then show ?thesis
    by (simp add: heap_mset_def heap_swap_def Let_def take_update_swap)
qed

text \<open>
  The invariant while an entry bubbles up from \<open>idx\<close>: it holds everywhere except
  between \<open>idx\<close> and its parent, and the parent of \<open>idx\<close> may stand above the children
  of \<open>idx\<close>.
\<close>

definition up_ok :: "'a heap_t \<Rightarrow> nat \<Rightarrow> bool" where
  "up_ok h idx \<longleftrightarrow>
     (\<forall>i. 0 < i \<and> i < count h \<and> i \<noteq> idx \<longrightarrow>
        above_ok (comparator h) (entries h ! parent i) (entries h ! i))
     \<and> (\<forall>c. 0 < idx \<and> 0 < c \<and> c < count h \<and> parent c = idx \<longrightarrow>
        above_ok (comparator h) (entries h ! parent idx) (entries h ! c))"

lemma up_ok_swap:
  assumes ok: "comparator_ok (comparator h)"
    and wf: "heap_wf h"
    and idx: "0 < idx" "idx < count h"
    and up: "up_ok h idx"
    and nb: "\<not> before (comparator h) (entries h ! parent idx) (entries h ! idx)"
  shows "up_ok (heap_swap h idx (parent idx)) (parent idx)"
proof -
  define p where "p = parent idx"
  let ?e = "entries h"
  let ?h' = "heap_swap h idx p"
  let ?cmp = "comparator h"
  have pl: "p < idx" using idx parent_less by (simp add: p_def)
  have len: "count h \<le> length ?e" using wf by (simp add: heap_wf_def)
  have nth: "entries ?h' ! i = (if i = p then ?e ! idx else if i = idx then ?e ! p else ?e ! i)" for i
    using heap_swap_nth [of idx h p i] idx pl len by simp
  have child_parent: "above_ok ?cmp (?e ! idx) (?e ! p)"
    using nb unfolding p_def by (rule not_before_above_ok)
  have old: "above_ok ?cmp (?e ! parent i) (?e ! i)" if "0 < i" "i < count h" "i \<noteq> idx" for i
    using up that by (simp add: up_ok_def)
  have grand: "above_ok ?cmp (?e ! p) (?e ! c)" if "0 < c" "c < count h" "parent c = idx" for c
    using up idx that by (simp add: up_ok_def p_def)
  have "up_ok ?h' p"
    unfolding up_ok_def
  proof (intro conjI allI impI)
    fix i assume i: "0 < i \<and> i < count ?h' \<and> i \<noteq> p"
    then have i0: "0 < i" and il: "i < count h" and ip: "i \<noteq> p" by simp_all
    have pil: "parent i < i" using i0 by (rule parent_less)
    consider (self) "i = idx" | (child) "i \<noteq> idx" "parent i = idx"
      | (sibling) "i \<noteq> idx" "parent i = p" | (other) "i \<noteq> idx" "parent i \<noteq> idx" "parent i \<noteq> p"
      by blast
    then have "above_ok ?cmp (entries ?h' ! parent i) (entries ?h' ! i)"
    proof cases
      case self
      have "parent i = p" using self by (simp add: p_def)
      then have "entries ?h' ! parent i = ?e ! idx" "entries ?h' ! i = ?e ! p"
        using self pl by (simp_all add: nth)
      then show ?thesis using child_parent by simp
    next
      case child
      have "entries ?h' ! parent i = ?e ! p" "entries ?h' ! i = ?e ! i"
        using child ip pl by (simp_all add: nth)
      then show ?thesis using grand [OF i0 il child(2)] by simp
    next
      case sibling
      have e: "entries ?h' ! parent i = ?e ! idx" "entries ?h' ! i = ?e ! i"
        using sibling ip by (simp_all add: nth)
      have "above_ok ?cmp (?e ! p) (?e ! i)" using old [OF i0 il sibling(1)] sibling(2) by simp
      then have "above_ok ?cmp (?e ! idx) (?e ! i)"
        using above_ok_trans [OF ok child_parent] by simp
      then show ?thesis using e by simp
    next
      case other
      have "entries ?h' ! parent i = ?e ! parent i" "entries ?h' ! i = ?e ! i"
        using other ip by (simp_all add: nth)
      then show ?thesis using old [OF i0 il other(1)] by simp
    qed
    then show "above_ok (comparator ?h') (entries ?h' ! parent i) (entries ?h' ! i)" by simp
  next
    fix c assume c: "0 < p \<and> 0 < c \<and> c < count ?h' \<and> parent c = p"
    then have p0: "0 < p" and c0: "0 < c" and cl: "c < count h" and cp: "parent c = p"
      by simp_all
    have ppl: "parent p < p" using p0 by (rule parent_less)
    have pp: "above_ok ?cmp (?e ! parent p) (?e ! p)"
      using old [of p] p0 pl idx by simp
    have cne: "c \<noteq> p" using cp parent_less [OF c0] by auto
    have e1: "entries ?h' ! parent p = ?e ! parent p" using ppl pl by (simp add: nth)
    have "above_ok ?cmp (?e ! parent p) (entries ?h' ! c)"
    proof (cases "c = idx")
      case True
      then have "entries ?h' ! c = ?e ! p" using pl by (simp add: nth)
      then show ?thesis using pp by simp
    next
      case False
      have "above_ok ?cmp (?e ! p) (?e ! c)" using old [OF c0 cl False] cp by simp
      then have "above_ok ?cmp (?e ! parent p) (?e ! c)"
        using above_ok_trans [OF ok pp] by simp
      moreover have "entries ?h' ! c = ?e ! c" using False cne by (simp add: nth)
      ultimately show ?thesis by simp
    qed
    then show "above_ok (comparator ?h') (entries ?h' ! parent p) (entries ?h' ! c)"
      using e1 by simp
  qed
  then show ?thesis by (simp add: p_def)
qed

lemma heap_wf_swap [simp]: "heap_wf (heap_swap h a b) = heap_wf h"
  by (simp add: heap_wf_def)

lemma up_ok_heap_ok:
  assumes "up_ok h idx"
    and "idx = 0 \<or> above_ok (comparator h) (entries h ! parent idx) (entries h ! idx)"
  shows "heap_ok h"
  unfolding heap_ok_def
proof (intro allI impI)
  fix i assume i: "0 < i \<and> i < count h"
  show "above_ok (comparator h) (entries h ! parent i) (entries h ! i)"
  proof (cases "i = idx")
    case True
    then show ?thesis using assms(2) i by auto
  next
    case False
    then show ?thesis using assms(1) i by (simp add: up_ok_def)
  qed
qed

lemma heap_bubble_up_ok:
  assumes "comparator_ok (comparator h)" and "heap_wf h" and "idx < count h" and "up_ok h idx"
  shows "heap_ok (heap_bubble_up h idx) \<and> heap_mset (heap_bubble_up h idx) = heap_mset h"
  using assms
proof (induction h idx rule: heap_bubble_up.induct)
  case (1 heap idx)
  have lim: "idx < 2 ^ 32" using "1.prems"(2,3) by (simp add: heap_wf_def)
  show ?case
  proof (cases "idx \<noteq> 0 \<and> \<not> heap_property heap (HEAP_PARENT idx) idx")
    case True
    then have idx0: "0 < idx" by simp
    have hp: "HEAP_PARENT idx = parent idx" using idx0 lim by (rule HEAP_PARENT_no_wrap)
    have nb: "\<not> before (comparator heap) (entries heap ! parent idx) (entries heap ! idx)"
      using True hp by (simp add: heap_property_before)
    have pl: "parent idx < idx" using idx0 by (rule parent_less)
    have up': "up_ok (heap_swap heap idx (parent idx)) (parent idx)"
      using "1.prems"(1,2) idx0 "1.prems"(3,4) nb by (rule up_ok_swap)
    have len: "count heap \<le> length (entries heap)" using "1.prems"(2) by (simp add: heap_wf_def)
    have ms: "heap_mset (heap_swap heap idx (parent idx)) = heap_mset heap"
      using "1.prems"(3) pl len by (intro heap_swap_mset) simp_all
    have "heap_ok (heap_bubble_up (heap_swap heap idx (HEAP_PARENT idx)) (HEAP_PARENT idx))
        \<and> heap_mset (heap_bubble_up (heap_swap heap idx (HEAP_PARENT idx)) (HEAP_PARENT idx))
          = heap_mset (heap_swap heap idx (HEAP_PARENT idx))"
    proof (rule "1.IH" [OF True])
      show "comparator_ok (comparator (heap_swap heap idx (HEAP_PARENT idx)))"
        using "1.prems"(1) by simp
      show "heap_wf (heap_swap heap idx (HEAP_PARENT idx))" using "1.prems"(2) by simp
      show "HEAP_PARENT idx < count (heap_swap heap idx (HEAP_PARENT idx))"
        using hp pl "1.prems"(3) by simp
      show "up_ok (heap_swap heap idx (HEAP_PARENT idx)) (HEAP_PARENT idx)"
        using up' hp by simp
    qed
    then show ?thesis using True ms hp by (simp add: heap_bubble_up_step)
  next
    case False
    have "heap_ok heap"
    proof (rule up_ok_heap_ok [OF "1.prems"(4)])
      show "idx = 0 \<or> above_ok (comparator heap) (entries heap ! parent idx) (entries heap ! idx)"
      proof (cases "idx = 0")
        case True
        then show ?thesis by simp
      next
        case nz: False
        then have "HEAP_PARENT idx = parent idx" using lim by (intro HEAP_PARENT_no_wrap) simp_all
        then have "before (comparator heap) (entries heap ! parent idx) (entries heap ! idx)"
          using False nz by (simp add: heap_property_before)
        then show ?thesis using before_above_ok [OF "1.prems"(1)] by simp
      qed
    qed
    then show ?thesis using False by (simp add: heap_bubble_up_stop)
  qed
qed

lemma heap_insert_ok:
  assumes ok: "comparator_ok (comparator h)" and wf: "heap_wf h" and inv: "heap_ok h"
    and room: "count h < capacity h"
  shows "heap_ok (heap_insert h v)" and "heap_wf (heap_insert h v)"
    and "heap_mset (heap_insert h v) = heap_mset h + {#v#}"
    and "count (heap_insert h v) = Suc (count h)"
    and "comparator (heap_insert h v) = comparator h"
    and "capacity (heap_insert h v) = capacity h"
proof -
  define n where "n = count h"
  define h2 where "h2 = h\<lparr>entries := (entries h)[n := v], count := Suc n\<rparr>"
  have len: "length (entries h) = capacity h" and cap: "capacity h < 2 ^ 31"
    using wf by (simp_all add: heap_wf_def)
  have nm: "(n + 1) mod UINT_MOD = Suc n" using room cap by (simp add: n_def UINT_MOD_def)
  have ins: "heap_insert h v = heap_bubble_up h2 n"
    using room nm by (simp add: heap_insert_def Let_def h2_def n_def)
  have wf2: "heap_wf h2" using wf room by (simp add: heap_wf_def h2_def n_def)
  have ok2: "comparator_ok (comparator h2)" using ok by (simp add: h2_def)
  have up: "up_ok h2 n"
    unfolding up_ok_def
  proof (intro conjI allI impI)
    fix i assume "0 < i \<and> i < count h2 \<and> i \<noteq> n"
    then have i: "0 < i" "i < n" by (simp_all add: h2_def)
    have "parent i < i" using i(1) by (rule parent_less)
    then have "entries h2 ! parent i = entries h ! parent i" "entries h2 ! i = entries h ! i"
      using i by (simp_all add: h2_def)
    moreover have "above_ok (comparator h) (entries h ! parent i) (entries h ! i)"
      using inv i by (simp add: heap_ok_def n_def)
    ultimately show "above_ok (comparator h2) (entries h2 ! parent i) (entries h2 ! i)"
      by (simp add: h2_def)
  next
    fix c assume c: "0 < n \<and> 0 < c \<and> c < count h2 \<and> parent c = n"
    then have "parent c < c" using parent_less by blast
    then have False using c by (simp add: h2_def)
    then show "above_ok (comparator h2) (entries h2 ! parent n) (entries h2 ! c)" ..
  qed
  have b: "heap_ok (heap_bubble_up h2 n) \<and> heap_mset (heap_bubble_up h2 n) = heap_mset h2"
    using ok2 wf2 _ up by (rule heap_bubble_up_ok) (simp add: h2_def)
  have "take (Suc n) ((entries h)[n := v]) = take n (entries h) @ [v]"
    using room len by (simp add: n_def take_Suc_conv_app_nth)
  then have ms2: "heap_mset h2 = heap_mset h + {#v#}"
    by (simp add: heap_mset_def h2_def n_def)
  show "heap_ok (heap_insert h v)" using b ins by simp
  show "heap_mset (heap_insert h v) = heap_mset h + {#v#}" using b ins ms2 by simp
  show "count (heap_insert h v) = Suc (count h)" using ins by (simp add: h2_def n_def)
  show "comparator (heap_insert h v) = comparator h" using ins by (simp add: h2_def)
  show "capacity (heap_insert h v) = capacity h" using ins by (simp add: h2_def)
  show "heap_wf (heap_insert h v)" using ins wf2 by (simp add: heap_wf_def)
qed

text \<open>
  The invariant while an entry sinks from \<open>idx\<close>: it holds everywhere except between
  \<open>idx\<close> and its children, and the parent of \<open>idx\<close> may stand above the children of
  \<open>idx\<close>.
\<close>

definition down_ok :: "'a heap_t \<Rightarrow> nat \<Rightarrow> bool" where
  "down_ok h idx \<longleftrightarrow>
     (\<forall>i. 0 < i \<and> i < count h \<and> parent i \<noteq> idx \<longrightarrow>
        above_ok (comparator h) (entries h ! parent i) (entries h ! i))
     \<and> (\<forall>c. 0 < idx \<and> 0 < c \<and> c < count h \<and> parent c = idx \<longrightarrow>
        above_ok (comparator h) (entries h ! parent idx) (entries h ! c))"

lemma heap_compare_before:
  "heap_compare h i j > 0 \<longleftrightarrow> before (comparator h) (entries h ! i) (entries h ! j)"
  by (simp add: heap_compare_def before_def)

lemma heap_heapify_ok:
  assumes "comparator_ok (comparator h)" and "heap_wf h" and "down_ok h idx"
    and "idx < count h \<or> idx = 0"
  shows "\<exists>h'. heap_heapify h idx = Some h' \<and> heap_ok h' \<and> heap_mset h' = heap_mset h
           \<and> heap_wf h' \<and> count h' = count h \<and> comparator h' = comparator h"
  using assms
proof (induction "count h - idx" arbitrary: h idx rule: less_induct)
  case less
  note ok = less.prems(1) and wf = less.prems(2) and down = less.prems(3)
  let ?e = "entries h"
  let ?cmp = "comparator h"
  have len: "count h \<le> length ?e" and cnt: "count h < 2 ^ 31"
    using wf by (simp_all add: heap_wf_def)
  have small: "idx < 2 ^ 31 - 1" using less.prems(4) cnt by auto
  note nw = heap_children_no_wrap [OF small]
  define l where "l = 2 * idx + 1"
  define r where "r = 2 * idx + 2"
  define s where "s =
            (if r < count h
             then (if heap_compare h l r > 0 then l else r)
             else if l < count h then l
             else idx)"
  have unfold: "heap_heapify h idx =
     (if s \<noteq> idx \<and> \<not> heap_property h idx s then heap_heapify (heap_swap h idx s) s else Some h)"
    by (subst heap_heapify.simps) (simp add: Let_def s_def nw l_def r_def)
  have child: "i = l \<or> i = r" if "0 < i" "parent i = idx" for i
    using parent_eq_iff [OF that(1), of idx] that(2) by (simp add: l_def r_def)
  have s_cases: "s = idx \<or> (idx < s \<and> s < count h \<and> parent s = idx)"
  proof -
    have "parent l = idx" "parent r = idx" by (simp_all add: l_def r_def parent_def)
    moreover have "idx < l" "idx < r" "l < r" by (simp_all add: l_def r_def)
    ultimately show ?thesis by (auto simp: s_def)
  qed
  have no_child: "s \<noteq> idx" if "0 < i" "i < count h" "parent i = idx" for i
  proof -
    have "l < count h" using child [OF that(1,3)] that(2) by (auto simp: l_def r_def)
    then show ?thesis by (auto simp: s_def l_def r_def)
  qed
  have sib: "above_ok ?cmp (?e ! s) (?e ! i)" if "0 < i" "i < count h" "parent i = idx" for i
  proof -
    note i = that
    consider (left) "i = l" "r < count h" | (left_only) "i = l" "\<not> r < count h" | (right) "i = r"
      using child [OF i(1,3)] by blast
    then show ?thesis
    proof cases
      case left
      show ?thesis
      proof (cases "heap_compare h l r > 0")
        case True
        then have "s = l" using left by (simp add: s_def)
        then show ?thesis using left above_ok_refl [OF ok] by simp
      next
        case False
        then have "s = r" using left by (simp add: s_def)
        moreover have "above_ok ?cmp (?e ! r) (?e ! l)"
          using False by (intro not_before_above_ok) (simp add: heap_compare_before)
        ultimately show ?thesis using left by simp
      qed
    next
      case left_only
      then have "s = l" using i(2) by (simp add: s_def)
      then show ?thesis using left_only above_ok_refl [OF ok] by simp
    next
      case right
      then have rc: "r < count h" using i(2) by simp
      show ?thesis
      proof (cases "heap_compare h l r > 0")
        case True
        then have "s = l" using rc by (simp add: s_def)
        moreover have "above_ok ?cmp (?e ! l) (?e ! r)"
          using True by (intro before_above_ok [OF ok]) (simp add: heap_compare_before)
        ultimately show ?thesis using right by simp
      next
        case False
        then have "s = r" using rc by (simp add: s_def)
        then show ?thesis using right above_ok_refl [OF ok] by simp
      qed
    qed
  qed
  have old: "above_ok ?cmp (?e ! parent i) (?e ! i)" if "0 < i" "i < count h" "parent i \<noteq> idx" for i
    using down that by (simp add: down_ok_def)
  have grand: "above_ok ?cmp (?e ! parent idx) (?e ! c)"
    if "0 < idx" "0 < c" "c < count h" "parent c = idx" for c
    using down that by (simp add: down_ok_def)
  show ?case
  proof (cases "s \<noteq> idx \<and> \<not> heap_property h idx s")
    case True
    then have s: "idx < s" "s < count h" "parent s = idx" using s_cases by auto
    let ?h' = "heap_swap h idx s"
    have nth: "entries ?h' ! i = (if i = s then ?e ! idx else if i = idx then ?e ! s else ?e ! i)" for i
      using heap_swap_nth [of idx h s i] s len by simp
    have s_idx: "above_ok ?cmp (?e ! s) (?e ! idx)"
      using True by (intro not_before_above_ok) (simp add: heap_property_before)
    have down': "down_ok ?h' s"
      unfolding down_ok_def
    proof (intro conjI allI impI)
      fix i assume i: "0 < i \<and> i < count ?h' \<and> parent i \<noteq> s"
      then have i0: "0 < i" and il: "i < count h" and ips: "parent i \<noteq> s" by simp_all
      have pil: "parent i < i" using i0 by (rule parent_less)
      consider (self) "i = s" | (sibling) "i \<noteq> s" "parent i = idx"
        | (top) "i = idx" | (other) "i \<noteq> s" "i \<noteq> idx" "parent i \<noteq> idx"
        by blast
      then have "above_ok ?cmp (entries ?h' ! parent i) (entries ?h' ! i)"
      proof cases
        case self
        then have "entries ?h' ! parent i = ?e ! s" "entries ?h' ! i = ?e ! idx"
          using s by (simp_all add: nth)
        then show ?thesis using s_idx by simp
      next
        case sibling
        have "i \<noteq> idx" using sibling(2) pil by simp
        then have "entries ?h' ! parent i = ?e ! s" "entries ?h' ! i = ?e ! i"
          using sibling s by (simp_all add: nth)
        then show ?thesis using sib [OF i0 il sibling(2)] by simp
      next
        case top
        have "parent idx \<noteq> s" "parent idx \<noteq> idx" using top pil s(1) by simp_all
        then have "entries ?h' ! parent i = ?e ! parent idx" "entries ?h' ! i = ?e ! s"
          using top s by (simp_all add: nth)
        then show ?thesis using grand [of s] top i0 s by simp
      next
        case other
        then have "entries ?h' ! parent i = ?e ! parent i" "entries ?h' ! i = ?e ! i"
          using ips by (simp_all add: nth)
        then show ?thesis using old [OF i0 il other(3)] by simp
      qed
      then show "above_ok (comparator ?h') (entries ?h' ! parent i) (entries ?h' ! i)" by simp
    next
      fix c assume c: "0 < s \<and> 0 < c \<and> c < count ?h' \<and> parent c = s"
      then have c0: "0 < c" and cl: "c < count h" and cp: "parent c = s" by simp_all
      have "s < c" using parent_less [OF c0] cp by simp
      then have "entries ?h' ! parent s = ?e ! s" "entries ?h' ! c = ?e ! c"
        using s by (simp_all add: nth)
      moreover have "above_ok ?cmp (?e ! s) (?e ! c)"
        using old [OF c0 cl] cp s(1) by simp
      ultimately show "above_ok (comparator ?h') (entries ?h' ! parent s) (entries ?h' ! c)"
        by simp
    qed
    have ms: "heap_mset ?h' = heap_mset h"
      using s len by (intro heap_swap_mset) simp_all
    have "\<exists>h'. heap_heapify ?h' s = Some h' \<and> heap_ok h' \<and> heap_mset h' = heap_mset ?h'
           \<and> heap_wf h' \<and> count h' = count ?h' \<and> comparator h' = comparator ?h'"
    proof (rule less.hyps)
      show "count ?h' - s < count h - idx" using s by simp
      show "comparator_ok (comparator ?h')" using ok by simp
      show "heap_wf ?h'" using wf by simp
      show "down_ok ?h' s" by (rule down')
      show "s < count ?h' \<or> s = 0" using s by simp
    qed
    then show ?thesis using True unfold ms by simp
  next
    case False
    have "heap_ok h"
      unfolding heap_ok_def
    proof (intro allI impI)
      fix i assume i: "0 < i \<and> i < count h"
      then have i0: "0 < i" and il: "i < count h" by simp_all
      show "above_ok ?cmp (?e ! parent i) (?e ! i)"
      proof (cases "parent i = idx")
        case True
        have "s \<noteq> idx" using i0 il True by (rule no_child)
        then have "before ?cmp (?e ! idx) (?e ! s)"
          using False by (simp add: heap_property_before)
        then have "above_ok ?cmp (?e ! idx) (?e ! s)" by (rule before_above_ok [OF ok])
        then have "above_ok ?cmp (?e ! idx) (?e ! i)"
          using sib [OF i0 il True] by (rule above_ok_trans [OF ok])
        then show ?thesis using True by simp
      next
        case False
        then show ?thesis using old [OF i0 il] by simp
      qed
    qed
    then show ?thesis using False unfold wf by auto
  qed
qed

lemma heap_root_above:
  assumes ok: "comparator_ok (comparator h)" and inv: "heap_ok h"
  shows "i < count h \<Longrightarrow> above_ok (comparator h) (entries h ! 0) (entries h ! i)"
proof (induction i rule: less_induct)
  case (less i)
  show ?case
  proof (cases "i = 0")
    case True
    then show ?thesis using above_ok_refl [OF ok] by simp
  next
    case False
    then have i0: "0 < i" by simp
    have pl: "parent i < i" using i0 by (rule parent_less)
    have "above_ok (comparator h) (entries h ! 0) (entries h ! parent i)"
      using less.IH [OF pl] pl less.prems by simp
    moreover have "above_ok (comparator h) (entries h ! parent i) (entries h ! i)"
      using inv i0 less.prems by (simp add: heap_ok_def)
    ultimately show ?thesis by (rule above_ok_trans [OF ok])
  qed
qed

lemma heap_root_least:
  assumes ok: "comparator_ok (comparator h)" and inv: "heap_ok h"
    and len: "count h \<le> length (entries h)" and x: "x \<in># heap_mset h"
  shows "above_ok (comparator h) (entries h ! 0) x"
proof -
  from x have "x \<in> set (take (count h) (entries h))" by (simp add: heap_mset_def)
  then obtain i where "i < length (take (count h) (entries h))"
    and "take (count h) (entries h) ! i = x"
    by (auto simp: in_set_conv_nth)
  then have "i < count h" "entries h ! i = x" using len by simp_all
  then show ?thesis using heap_root_above [OF ok inv, of i] by simp
qed

lemma heap_extract_ok:
  assumes ok: "comparator_ok (comparator h)" and wf: "heap_wf h" and inv: "heap_ok h"
    and ne: "0 < count h"
  shows "\<exists>h'. heap_extract h = Some (Some (entries h ! 0), h') \<and> heap_ok h' \<and> heap_wf h'
           \<and> comparator h' = comparator h \<and> count h' = count h - 1
           \<and> heap_mset h = heap_mset h' + {#entries h ! 0#}"
proof -
  define n where "n = count h - 1"
  define h2 where "h2 = h\<lparr>entries := (entries h)[0 := entries h ! n], count := n\<rparr>"
  have cnt: "count h = Suc n" using ne by (simp add: n_def)
  have len: "Suc n \<le> length (entries h)" using wf cnt by (simp add: heap_wf_def)
  have ex: "heap_extract h = map_option (\<lambda>h'. (Some (entries h ! 0), h')) (heap_heapify h2 0)"
    using ne by (simp add: heap_extract_def Let_def h2_def n_def)
  have wf2: "heap_wf h2" using wf cnt by (simp add: heap_wf_def h2_def)
  have ok2: "comparator_ok (comparator h2)" using ok by (simp add: h2_def)
  have down: "down_ok h2 0"
    unfolding down_ok_def
  proof (intro conjI allI impI)
    fix i assume "0 < i \<and> i < count h2 \<and> parent i \<noteq> 0"
    then have i: "0 < i" "i < n" "parent i \<noteq> 0" by (simp_all add: h2_def)
    then have "entries h2 ! parent i = entries h ! parent i" "entries h2 ! i = entries h ! i"
      by (simp_all add: h2_def)
    moreover have "above_ok (comparator h) (entries h ! parent i) (entries h ! i)"
      using inv i cnt by (simp add: heap_ok_def)
    ultimately show "above_ok (comparator h2) (entries h2 ! parent i) (entries h2 ! i)"
      by (simp add: h2_def)
  next
    fix c assume "(0::nat) < 0 \<and> 0 < c \<and> c < count h2 \<and> parent c = 0"
    then show "above_ok (comparator h2) (entries h2 ! parent 0) (entries h2 ! c)" by simp
  qed
  obtain h' where h': "heap_heapify h2 0 = Some h'" "heap_ok h'" "heap_mset h' = heap_mset h2"
    "heap_wf h'" "count h' = count h2" "comparator h' = comparator h2"
    using heap_heapify_ok [OF ok2 wf2 down] by auto
  have ms: "heap_mset h = heap_mset h2 + {#entries h ! 0#}"
  proof (cases n)
    case 0
    have "entries h \<noteq> []" using len by auto
    then obtain a es where "entries h = a # es" by (cases "entries h") simp_all
    then show ?thesis using cnt 0 by (simp add: heap_mset_def h2_def)
  next
    case (Suc m)
    let ?t = "take n (entries h)"
    have t0: "?t ! 0 = entries h ! 0" using Suc by simp
    have l0: "0 < length ?t" using Suc len by simp
    have "take (Suc n) (entries h) = ?t @ [entries h ! n]"
      using len by (simp add: take_Suc_conv_app_nth)
    then have a: "heap_mset h = mset ?t + {#entries h ! n#}"
      using cnt by (simp add: heap_mset_def)
    have "take n ((entries h)[0 := entries h ! n]) = ?t[0 := entries h ! n]"
      by (simp add: take_update_swap)
    then have "heap_mset h2 = mset (?t[0 := entries h ! n])"
      by (simp add: heap_mset_def h2_def)
    also have "\<dots> = add_mset (entries h ! n) (mset ?t - {#?t ! 0#})"
      using l0 by (rule mset_update)
    finally have b: "heap_mset h2 = add_mset (entries h ! n) (mset ?t - {#entries h ! 0#})"
      using t0 by simp
    have "entries h ! 0 \<in># mset ?t" using l0 t0 nth_mem [OF l0] by simp
    then show ?thesis using a b by simp
  qed
  show ?thesis
    using h' ex ms by (simp add: h2_def n_def)
qed

text \<open>
  A client that empties the heap: it calls \<^verbatim>\<open>heap_extract\<close> until the call returns
  \<^verbatim>\<open>NULL\<close>, and collects the extracted values in the order of the calls.
\<close>

partial_function (option) heap_drain :: "'a heap_t \<Rightarrow> 'a list option" where
  "heap_drain heap =
     (case heap_extract heap of
        None \<Rightarrow> None
      | Some (None, heap') \<Rightarrow> Some []
      | Some (Some v, heap') \<Rightarrow> Option.bind (heap_drain heap') (\<lambda>vs. Some (v # vs)))"

lemma heap_drain_ok:
  assumes "comparator_ok (comparator h)" and "heap_wf h" and "heap_ok h"
  shows "\<exists>xs. heap_drain h = Some xs \<and> mset xs = heap_mset h
           \<and> sorted_wrt (above_ok (comparator h)) xs"
  using assms
proof (induction "count h" arbitrary: h)
  case 0
  then have "heap_extract h = Some (None, h)" by (simp add: heap_extract_def)
  then have "heap_drain h = Some []" by (subst heap_drain.simps) simp
  then show ?case using 0 by (simp add: heap_mset_def)
next
  case (Suc n)
  note ok = Suc.prems(1) and wf = Suc.prems(2) and inv = Suc.prems(3)
  have ne: "0 < count h" using Suc.hyps(2) by simp
  have len: "count h \<le> length (entries h)" using wf by (simp add: heap_wf_def)
  obtain h' where h': "heap_extract h = Some (Some (entries h ! 0), h')" "heap_ok h'"
    "heap_wf h'" "comparator h' = comparator h" "count h' = count h - 1"
    "heap_mset h = heap_mset h' + {#entries h ! 0#}"
    using heap_extract_ok [OF ok wf inv ne] by auto
  have "\<exists>xs. heap_drain h' = Some xs \<and> mset xs = heap_mset h'
           \<and> sorted_wrt (above_ok (comparator h')) xs"
  proof (rule Suc.hyps(1))
    show "n = count h'" using h'(5) Suc.hyps(2) by simp
    show "comparator_ok (comparator h')" using ok h'(4) by simp
    show "heap_wf h'" by (rule h'(3))
    show "heap_ok h'" by (rule h'(2))
  qed
  then obtain xs where xs: "heap_drain h' = Some xs" "mset xs = heap_mset h'"
    "sorted_wrt (above_ok (comparator h)) xs"
    using h'(4) by auto
  have dr: "heap_drain h = Some (entries h ! 0 # xs)"
    by (subst heap_drain.simps) (simp add: h'(1) xs(1))
  have "above_ok (comparator h) (entries h ! 0) x" if "x \<in> set xs" for x
  proof -
    have "x \<in># heap_mset h'" using that xs(2) by (metis set_mset_mset)
    then have "x \<in># heap_mset h" using h'(6) by simp
    then show ?thesis using heap_root_least [OF ok inv len] by simp
  qed
  then have "sorted_wrt (above_ok (comparator h)) (entries h ! 0 # xs)"
    using xs(3) by simp
  then show ?case using dr xs(2) h'(6) by simp
qed

lemma heap_new_ok:
  "K < 2 ^ 31 \<Longrightarrow> heap_wf (heap_new K cmp junk) \<and> heap_ok (heap_new K cmp junk)
     \<and> heap_mset (heap_new K cmp junk) = {#} \<and> count (heap_new K cmp junk) = 0
     \<and> capacity (heap_new K cmp junk) = K \<and> comparator (heap_new K cmp junk) = cmp"
  by (simp add: heap_new_def heap_wf_def heap_ok_def heap_mset_def)

lemma heap_inserts_ok:
  assumes "comparator_ok (comparator h)" and "heap_wf h" and "heap_ok h"
    and "count h + length vs \<le> capacity h"
  shows "heap_ok (foldl heap_insert h vs) \<and> heap_wf (foldl heap_insert h vs)
     \<and> heap_mset (foldl heap_insert h vs) = heap_mset h + mset vs
     \<and> comparator (foldl heap_insert h vs) = comparator h"
  using assms
proof (induction vs arbitrary: h)
  case Nil
  then show ?case by simp
next
  case (Cons v vs)
  have room: "count h < capacity h" using Cons.prems(4) by simp
  note ins = heap_insert_ok [OF Cons.prems(1,2,3) room, of v]
  have "heap_ok (foldl heap_insert (heap_insert h v) vs)
     \<and> heap_wf (foldl heap_insert (heap_insert h v) vs)
     \<and> heap_mset (foldl heap_insert (heap_insert h v) vs) = heap_mset (heap_insert h v) + mset vs
     \<and> comparator (foldl heap_insert (heap_insert h v) vs) = comparator (heap_insert h v)"
  proof (rule Cons.IH)
    show "comparator_ok (comparator (heap_insert h v))" using Cons.prems(1) ins(5) by simp
    show "heap_wf (heap_insert h v)" by (rule ins(2))
    show "heap_ok (heap_insert h v)" by (rule ins(1))
    show "count (heap_insert h v) + length vs \<le> capacity (heap_insert h v)"
      using Cons.prems(4) ins(4,6) by simp
  qed
  then show ?case using ins(3,5) by simp
qed

text \<open>
  Claim C7. Let the comparator be usable (\<open>comparator_ok\<close>) and the capacity \<open>K\<close> be below
  \<open>2 ^ 31\<close>, so that no index wraps around. After at most \<open>K\<close> insertions into a new
  heap of capacity \<open>K\<close>, extracting until the heap is empty returns, and the extracted
  values are the inserted values, each as often as it was inserted, in an order in
  which no value stands before one that the comparator puts above it.
\<close>

theorem heap_extraction_order:
  assumes "comparator_ok cmp" and "K < 2 ^ 31" and "length vs \<le> K"
  shows "\<exists>xs. heap_drain (foldl heap_insert (heap_new K cmp junk) vs) = Some xs
           \<and> mset xs = mset vs \<and> sorted_wrt (\<lambda>a b. \<not> 0 < cmp b a) xs"
proof -
  let ?g = "heap_new K cmp junk"
  let ?h = "foldl heap_insert ?g vs"
  note new = heap_new_ok [OF assms(2), of cmp junk]
  have "heap_ok ?h \<and> heap_wf ?h \<and> heap_mset ?h = heap_mset ?g + mset vs
     \<and> comparator ?h = comparator ?g"
  proof (rule heap_inserts_ok)
    show "comparator_ok (comparator ?g)" using assms(1) new by simp
    show "heap_wf ?g" using new by simp
    show "heap_ok ?g" using new by simp
    show "count ?g + length vs \<le> capacity ?g" using assms(3) new by simp
  qed
  then have h: "heap_ok ?h" "heap_wf ?h" "heap_mset ?h = mset vs" "comparator ?h = cmp"
    using new by simp_all
  have "comparator_ok (comparator ?h)" using assms(1) h(4) by simp
  then obtain xs where xs: "heap_drain ?h = Some xs" "mset xs = heap_mset ?h"
    "sorted_wrt (above_ok (comparator ?h)) xs"
    using heap_drain_ok [OF _ h(2) h(1)] by blast
  have "above_ok cmp = (\<lambda>a b. \<not> 0 < cmp b a)"
    by (intro ext) (simp add: above_ok_def before_def)
  then show ?thesis using xs h(3,4) by simp
qed

theorem heap_extraction_order_witness:
  "comparator_ok (\<lambda>a b :: int. b - a) \<and> (4 :: nat) < 2 ^ 31 \<and> length [3, 1, 2 :: int] \<le> 4
   \<and> (\<exists>xs. heap_drain (foldl heap_insert (heap_new 4 (\<lambda>a b. b - a) 0) [3, 1, 2]) = Some xs
           \<and> mset xs = mset [3, 1, 2] \<and> sorted_wrt (\<lambda>a b. \<not> 0 < a - b) xs)"
  using heap_extraction_order [of "\<lambda>a b :: int. b - a" 4 "[3, 1, 2]" 0]
  by (simp add: comparator_ok_def before_def)

text \<open>The same on a concrete run: four insertions, then extraction until empty.\<close>

lemma heap_drain_example:
  "heap_drain (foldl heap_insert (heap_new 4 (\<lambda>a b. b - a) 0) [3, 1, 2, 1 :: int]) = Some [1, 1, 2, 3]"
proof -
  have r: "replicate 4 (0 :: int) = [0, 0, 0, 0]" by (simp add: numeral_eq_Suc)
  show ?thesis
    by (simp add: heap_drain.simps heap_extract_def heap_heapify.simps heap_insert_def
      heap_bubble_up.simps heap_new_def heap_swap_def heap_property_def heap_compare_def
      HEAP_PARENT_def HEAP_LEFT_def HEAP_RIGHT_def UINT_MOD_def Let_def r)
qed

end
